theory Spec2Isabelle
  imports Main
begin

section \<open>Label-aware patch sampling (torchio/data/sampler/label.py)\<close>

text \<open>
  The development embeds \<^verbatim>\<open>LabelSampler\<close>: the label locator
  \<^verbatim>\<open>get_first_label_image_dict\<close>, the rejection sampler \<^verbatim>\<open>extract_patch\<close> and the
  generator \<^verbatim>\<open>extract_patch_generator\<close>. The collaborators imported by the module
  (\<^verbatim>\<open>crop\<close>, \<^verbatim>\<open>is_image_dict\<close>, \<^verbatim>\<open>ImageSampler.get_random_indices\<close>,
  \<^verbatim>\<open>ImageSampler.copy_and_crop\<close>) are modelled from their contracts in the specification.
  Arrays are objects: a sample refers to its arrays by address, and the arrays live in a
  store that every call threads through, so that what a call writes is visible. Arrays
  hold integers; arrays of floating point numbers are outside this development.
\<close>

subsection \<open>Arrays\<close>

text \<open>
  A dense N-dimensional array: its shape and its elements in row-major order. Voxel
  values are integers. The array is well formed when the number of elements is the
  product of the shape.
\<close>

record ndarray =
  shape :: "nat list"
  flat :: "int list"

definition wf_array :: "ndarray \<Rightarrow> bool" where
  "wf_array a = (length (flat a) = prod_list (shape a))"

text \<open>Position of a multi-index in the row-major element list.\<close>

fun ravel :: "nat list \<Rightarrow> nat list \<Rightarrow> nat" where
  "ravel (n # sh) (i # idx) = i * prod_list sh + ravel sh idx"
| "ravel _ _ = 0"

text \<open>
  \<^verbatim>\<open>a.sum()\<close>: the sum of all elements. The sum of an integer tensor is a signed 64-bit
  integer, whatever the width of the elements, and it wraps around.
\<close>

definition wrap_int64 :: "int \<Rightarrow> int" where
  "wrap_int64 n = (n + 2 ^ 63) mod 2 ^ 64 - 2 ^ 63"

definition sum_nd :: "ndarray \<Rightarrow> int" where
  "sum_nd a = wrap_int64 (sum_list (flat a))"

text \<open>
  The positions selected along one axis of extent \<open>n\<close> by the slice \<^verbatim>\<open>i:f\<close>: a negative
  bound counts from the end, and both bounds are clamped to the axis.
\<close>

definition slice_bound :: "int \<Rightarrow> nat \<Rightarrow> nat" where
  "slice_bound i n = (if i < 0 then nat (max (i + int n) 0) else min (nat i) n)"

definition slice_range :: "int \<Rightarrow> int \<Rightarrow> nat \<Rightarrow> nat list" where
  "slice_range i f n = [slice_bound i n ..< slice_bound f n]"

text \<open>
  Modelled from the spec: the positions that \<^verbatim>\<open>crop\<close> of \<^verbatim>\<open>sampler.py\<close>, which is not part of
  the source at hand, selects along each axis of an array of shape \<open>sh\<close>. The spatial
  dimensions are the trailing axes, one per window coordinate, and are sliced by the
  window; every axis before them is a channel dimension and is kept in full.
\<close>

definition crop_ranges :: "nat list \<Rightarrow> int list \<Rightarrow> int list \<Rightarrow> nat list list" where
  "crop_ranges sh index_ini index_fin =
     (let n = length (zip index_ini index_fin);
          lead = take (length sh - n) sh;
          extent = drop (length sh - n) sh
      in map (\<lambda>c. [0 ..< c]) lead @
         map (\<lambda>((i, f), e). slice_range i f e) (zip (zip index_ini index_fin) extent))"

text \<open>
  Modelled from the spec: the crop operation \<^verbatim>\<open>crop(image, index_ini, index_fin)\<close> of
  \<^verbatim>\<open>sampler.py\<close>, which is not part of the source at hand. Given an array and a window it
  returns the sub-array over the spatial dimensions, preserving any channel dimension
  unchanged: the elements at the selected positions, in row-major order.
\<close>

definition crop :: "ndarray \<Rightarrow> int list \<Rightarrow> int list \<Rightarrow> ndarray" where
  "crop array index_ini index_fin =
     (let ranges = crop_ranges (shape array) index_ini index_fin
      in \<lparr>shape = map length ranges,
          flat = map (\<lambda>idx. flat array ! ravel (shape array) idx) (product_lists ranges)\<rparr>)"

subsection \<open>Samples\<close>

text \<open>
  Modelled from the spec: the constants \<^verbatim>\<open>LABEL\<close> and \<^verbatim>\<open>DATA\<close> that the module imports are
  not part of the source at hand. The type tag of an image entry is a tag from a closed
  set that contains at least \<^verbatim>\<open>INTENSITY\<close> and \<^verbatim>\<open>LABEL\<close>, and \<^verbatim>\<open>DATA\<close> is the key of the
  entry's array.
\<close>

datatype image_type = INTENSITY | LABEL | OtherType string

text \<open>An image entry holds a reference to its data array and its type tag.\<close>

type_synonym addr = nat

record image_dict =
  data :: addr
  type :: image_type

text \<open>
  A sample entry is a variant: an image entry bearing a data array and a type tag, or
  an auxiliary payload that is opaque here.
\<close>

datatype 'p entry = ImageEntry image_dict | AuxEntry 'p

text \<open>
  Modelled from the spec: \<^verbatim>\<open>is_image_dict\<close> of \<^verbatim>\<open>utils.py\<close> is not part of the source at
  hand. The check whether an entry is an image entry is a variant match.
\<close>

fun is_image_dict :: "'p entry \<Rightarrow> bool" where
  "is_image_dict (ImageEntry _) = True"
| "is_image_dict (AuxEntry _) = False"

text \<open>
  A sample is a dictionary from entry names to entries. \<^verbatim>\<open>sample.values()\<close> enumerates
  the entries in the dictionary's insertion order, so the sample is the list of its items
  in that order.
\<close>

type_synonym 'p sample = "(string \<times> 'p entry) list"

definition values_of :: "'p sample \<Rightarrow> 'p entry list" where
  "values_of sample = map snd sample"

subsection \<open>The state\<close>

text \<open>
  The state a call runs in: the store of array objects (an address is a position in it),
  the number of windows requested from the random index generator so far, and the number
  of runs of the label locator so far. Each of the two counts is kept by the function
  it counts.
\<close>

record state =
  arrays :: "ndarray list"
  drawn :: nat
  located :: nat

subsection \<open>The label locator\<close>

datatype error = ValueError string

definition NoLabelFound :: error where
  "NoLabelFound = ValueError ''No images of type torchio.LABEL found in sample''"

text \<open>
  The \<^verbatim>\<open>for ... else\<close> loop of \<^verbatim>\<open>get_first_label_image_dict\<close> over the entries: an entry that
  is not an image is skipped, the first image of type \<^verbatim>\<open>LABEL\<close> ends the loop, and the
  \<^verbatim>\<open>else\<close> branch raises when the entries are exhausted.
\<close>

fun first_label :: "'p entry list \<Rightarrow> error + image_dict" where
  "first_label [] = Inl NoLabelFound"
| "first_label (entry # rest) =
     (if \<not> is_image_dict entry then first_label rest
      else case entry of
             ImageEntry image_dict \<Rightarrow>
               if type image_dict = LABEL then Inr image_dict else first_label rest
           | AuxEntry p \<Rightarrow> first_label rest)"

text \<open>
  A run of \<^verbatim>\<open>get_first_label_image_dict\<close>: the loop over \<^verbatim>\<open>sample.values()\<close>. The run is
  counted, and it changes nothing else.
\<close>

definition get_first_label_image_dict :: "'p sample \<Rightarrow> state \<Rightarrow> (error + image_dict) \<times> state" where
  "get_first_label_image_dict sample st =
     (first_label (values_of sample), st\<lparr>located := Suc (located st)\<rparr>)"

subsection \<open>The random index generator and the cropped copy\<close>

text \<open>
  A crop window is the pair (\<^verbatim>\<open>index_ini\<close>, \<^verbatim>\<open>index_fin\<close>) of integer coordinate tuples.
\<close>

type_synonym window = "int list \<times> int list"

text \<open>
  The source of randomness: what the generator answers to its \<open>k\<close>-th request, given what
  it is asked for, which is the sample, whose arrays and their extent it reads in the
  store, and the patch size.
\<close>

type_synonym 'p index_source = "nat \<Rightarrow> ndarray list \<Rightarrow> 'p sample \<Rightarrow> int list \<Rightarrow> window"

text \<open>
  Modelled from the spec: \<^verbatim>\<open>ImageSampler.get_random_indices\<close> is not part of the source at
  hand. Given the sample, for its spatial extent, and the patch size, the generator
  returns a window chosen at random. A request takes the next answer of the source of
  randomness for these arguments, and is counted.
\<close>

definition get_random_indices ::
  "'p index_source \<Rightarrow> 'p sample \<Rightarrow> int list \<Rightarrow> state \<Rightarrow> window \<times> state" where
  "get_random_indices rand sample patch_size st =
     (rand (drawn st) (arrays st) sample patch_size, st\<lparr>drawn := Suc (drawn st)\<rparr>)"

text \<open>
  Modelled from the spec: cropping produces new, independently owned sub-arrays. A new
  array object takes the next free address of the store, and no existing array changes.
\<close>

definition new_array :: "ndarray \<Rightarrow> state \<Rightarrow> addr \<times> state" where
  "new_array a st = (length (arrays st), st\<lparr>arrays := arrays st @ [a]\<rparr>)"

text \<open>
  Modelled from the spec: \<^verbatim>\<open>ImageSampler.copy_and_crop\<close> is not part of the source at hand.
  It builds a new sample with the same keys and entry kinds, in which the data of every
  image entry is a new array, the crop of the entry's data to the window, and every
  other entry passes through unchanged.
\<close>

fun copy_and_crop :: "'p sample \<Rightarrow> int list \<Rightarrow> int list \<Rightarrow> state \<Rightarrow> 'p sample \<times> state" where
  "copy_and_crop [] index_ini index_fin st = ([], st)"
| "copy_and_crop ((key, AuxEntry p) # rest) index_ini index_fin st =
     (case copy_and_crop rest index_ini index_fin st of
        (cropped, st') \<Rightarrow> ((key, AuxEntry p) # cropped, st'))"
| "copy_and_crop ((key, ImageEntry image_dict) # rest) index_ini index_fin st =
     (case new_array (crop (arrays st ! data image_dict) index_ini index_fin) st of
        (a, st1) \<Rightarrow>
          (case copy_and_crop rest index_ini index_fin st1 of
             (cropped, st') \<Rightarrow> ((key, ImageEntry (image_dict\<lparr>data := a\<rparr>)) # cropped, st')))"

subsection \<open>The rejection sampler\<close>

text \<open>
  The acceptance test of line 45, \<^verbatim>\<open>patch_label.sum() > 0\<close>, on the label crop of line 44.
  The crop is a temporary that nothing retains, so it is a value here.
\<close>

definition has_label :: "ndarray \<Rightarrow> window \<Rightarrow> bool" where
  "has_label label_array w =
     (let patch_label = crop label_array (fst w) (snd w)
      in sum_nd patch_label > 0)"

text \<open>
  The \<^verbatim>\<open>while not has_label\<close> loop. The flag is false on entry, so the body runs at least
  once; each round requests a window and tests the crop of the label array by it, and
  the loop leaves with the window of its last round. It has no other exit: where every
  window is rejected the loop does not return, which is the value \<open>None\<close>.
\<close>

partial_function (option) retry_loop ::
  "'p index_source \<Rightarrow> 'p sample \<Rightarrow> int list \<Rightarrow> addr \<Rightarrow> state \<Rightarrow> (window \<times> state) option"
where
  "retry_loop rand sample patch_size label_image_data st =
     (case get_random_indices rand sample patch_size st of
        (w, st') \<Rightarrow>
          if has_label (arrays st' ! label_image_data) w then Some (w, st')
          else retry_loop rand sample patch_size label_image_data st')"

text \<open>
  \<^verbatim>\<open>extract_patch\<close>: the locator runs once, before the loop, and its error propagates; the
  accepted window crops the whole sample.
\<close>

definition extract_patch ::
  "'p index_source \<Rightarrow> 'p sample \<Rightarrow> int list \<Rightarrow> state \<Rightarrow> ((error + 'p sample) \<times> state) option"
where
  "extract_patch rand sample patch_size st =
     (case get_first_label_image_dict sample st of
        (Inl e, st1) \<Rightarrow> Some (Inl e, st1)
      | (Inr label_image_dict, st1) \<Rightarrow>
          (let label_image_data = data label_image_dict
           in case retry_loop rand sample patch_size label_image_data st1 of
                None \<Rightarrow> None
              | Some ((index_ini, index_fin), st2) \<Rightarrow>
                  (case copy_and_crop sample index_ini index_fin st2 of
                     (cropped_sample, st3) \<Rightarrow> Some (Inr cropped_sample, st3))))"

subsection \<open>The patch generator\<close>

text \<open>
  \<^verbatim>\<open>extract_patch_generator\<close> is a generator function: calling it runs none of its body and
  returns a generator object that holds the arguments and is suspended. A request for
  the next element runs the body up to the next \<^verbatim>\<open>yield\<close>. The body is
  \<^verbatim>\<open>while True: yield self.extract_patch(sample, patch_size)\<close>, so a request either does not
  return, or yields the sample of one call of \<^verbatim>\<open>extract_patch\<close> and suspends again, or
  lets the error of that call escape, which closes the generator. A closed generator
  answers every request with \<^verbatim>\<open>StopIteration\<close>.
\<close>

datatype gen_status = Suspended | Closed

record 'p generator =
  gen_sample :: "'p sample"
  gen_patch_size :: "int list"
  gen_status :: gen_status

datatype 'p outcome = Yield "'p sample" | Raise error | StopIteration

definition extract_patch_generator :: "'p sample \<Rightarrow> int list \<Rightarrow> 'p generator" where
  "extract_patch_generator sample patch_size =
     \<lparr>gen_sample = sample, gen_patch_size = patch_size, gen_status = Suspended\<rparr>"

definition next_patch ::
  "'p index_source \<Rightarrow> 'p generator \<Rightarrow> state \<Rightarrow> ('p outcome \<times> 'p generator \<times> state) option"
where
  "next_patch rand g st =
     (case gen_status g of
        Closed \<Rightarrow> Some (StopIteration, g, st)
      | Suspended \<Rightarrow>
          (case extract_patch rand (gen_sample g) (gen_patch_size g) st of
             None \<Rightarrow> None
           | Some (Inl e, st') \<Rightarrow> Some (Raise e, g\<lparr>gen_status := Closed\<rparr>, st')
           | Some (Inr cropped_sample, st') \<Rightarrow> Some (Yield cropped_sample, g, st')))"

text \<open>A consumer that requests \<open>n\<close> elements one after the other and keeps each answer.\<close>

fun draw :: "nat \<Rightarrow> 'p index_source \<Rightarrow> 'p generator \<Rightarrow> state \<Rightarrow>
    ('p outcome list \<times> 'p generator \<times> state) option" where
  "draw 0 rand g st = Some ([], g, st)"
| "draw (Suc n) rand g st =
     (case next_patch rand g st of
        None \<Rightarrow> None
      | Some (out, g1, st1) \<Rightarrow>
          (case draw n rand g1 st1 of
             None \<Rightarrow> None
           | Some (outs, g2, st2) \<Rightarrow> Some (out # outs, g2, st2)))"

subsection \<open>Notions of the specification\<close>

text \<open>
  The crop window invariant of the data model, for a spatial extent and a patch size:
  the three tuples have one coordinate per spatial dimension, and in every dimension
  \<^verbatim>\<open>index_fin = index_ini + patch_size\<close>, \<^verbatim>\<open>0 <= index_ini\<close> and \<^verbatim>\<open>index_fin <= extent\<close>.
\<close>

definition crop_window :: "nat list \<Rightarrow> int list \<Rightarrow> window \<Rightarrow> bool" where
  "crop_window extent patch_size w =
     (case w of (index_ini, index_fin) \<Rightarrow>
        length index_ini = length extent \<and> length index_fin = length extent \<and>
        length patch_size = length extent \<and>
        (\<forall>d < length extent.
           index_fin ! d = index_ini ! d + patch_size ! d \<and>
           0 \<le> index_ini ! d \<and> index_fin ! d \<le> int (extent ! d)))"

text \<open>A label-tagged entry: an image entry whose type is the label tag.\<close>

fun is_label_entry :: "'p entry \<Rightarrow> bool" where
  "is_label_entry (ImageEntry d) = (type d = LABEL)"
| "is_label_entry (AuxEntry p) = False"

text \<open>
  The shape of an array over its \<open>n\<close> spatial (trailing) dimensions, and over the
  dimensions before them.
\<close>

definition spatial_shape :: "nat \<Rightarrow> ndarray \<Rightarrow> nat list" where
  "spatial_shape n a = drop (length (shape a) - n) (shape a)"

definition channel_shape :: "nat \<Rightarrow> ndarray \<Rightarrow> nat list" where
  "channel_shape n a = take (length (shape a) - n) (shape a)"

text \<open>The image entries of a sample, in order.\<close>

fun images_of :: "'p sample \<Rightarrow> image_dict list" where
  "images_of [] = []"
| "images_of ((key, AuxEntry p) # rest) = images_of rest"
| "images_of ((key, ImageEntry image_dict) # rest) = image_dict # images_of rest"

text \<open>The arrays of a sample are objects of the store.\<close>

definition sample_in_store :: "'p sample \<Rightarrow> state \<Rightarrow> bool" where
  "sample_in_store sample st = list_all (\<lambda>d. data d < length (arrays st)) (images_of sample)"

text \<open>
  The element sequence as the specification words it: each element is the result of one
  independent call of \<^verbatim>\<open>extract_patch\<close> on the same sample and patch size. The first \<open>n\<close>
  elements are the samples returned by \<open>n\<close> calls in a row.
\<close>

fun successive_calls :: "nat \<Rightarrow> 'p index_source \<Rightarrow> 'p sample \<Rightarrow> int list \<Rightarrow> state \<Rightarrow>
    ('p sample list \<times> state) option" where
  "successive_calls 0 rand sample patch_size st = Some ([], st)"
| "successive_calls (Suc n) rand sample patch_size st =
     (case extract_patch rand sample patch_size st of
        Some (Inr cropped_sample, st1) \<Rightarrow>
          (case successive_calls n rand sample patch_size st1 of
             Some (rest, st2) \<Rightarrow> Some (cropped_sample # rest, st2)
           | None \<Rightarrow> None)
      | _ \<Rightarrow> None)"

text \<open>
  The sequence of windows proposed to a call that runs in state \<open>st\<close> on a sample and a
  patch size: the window that answers the request number \<open>k\<close>. The store does not change
  while windows are requested.
\<close>

definition proposed :: "'p index_source \<Rightarrow> 'p sample \<Rightarrow> int list \<Rightarrow> state \<Rightarrow> nat \<Rightarrow> window" where
  "proposed rand sample patch_size st k = rand k (arrays st) sample patch_size"

text \<open>
  What leaving the loop at window \<open>w\<close> in state \<open>st'\<close> means for a loop entered in state
  \<open>st\<close> with the label array at address \<open>a\<close> and the proposed windows \<open>ws\<close>: \<open>w\<close> is the
  window of the last request, it passes the acceptance test, every earlier window of
  this call failed it, and only the count of requests has changed.
\<close>

definition accepted_by ::
  "(nat \<Rightarrow> window) \<Rightarrow> addr \<Rightarrow> state \<Rightarrow> window \<Rightarrow> state \<Rightarrow> bool" where
  "accepted_by ws a st w st' =
     (has_label (arrays st ! a) w \<and> drawn st < drawn st' \<and>
      w = ws (drawn st' - 1) \<and>
      located st' = located st \<and> arrays st' = arrays st \<and>
      (\<forall>k. drawn st \<le> k \<and> k < drawn st' - 1 \<longrightarrow> \<not> has_label (arrays st ! a) (ws k)))"

text \<open>
  An entry \<open>e'\<close> is the entry \<open>e\<close> cropped by the window \<open>w\<close>: it has the same key and the
  same kind; an image entry keeps its type tag and its array is the crop of the source
  array, and any other entry is unchanged. The source arrays are read in \<open>store\<close>, the
  cropped ones in \<open>store'\<close>.
\<close>

definition cropped_entry ::
  "ndarray list \<Rightarrow> ndarray list \<Rightarrow> window \<Rightarrow> string \<times> 'p entry \<Rightarrow> string \<times> 'p entry \<Rightarrow> bool" where
  "cropped_entry store store' w e e' =
     (fst e' = fst e \<and>
      (case (snd e, snd e') of
         (ImageEntry d, ImageEntry d') \<Rightarrow>
           type d' = type d \<and> store' ! data d' = crop (store ! data d) (fst w) (snd w)
       | (AuxEntry p, AuxEntry p') \<Rightarrow> p' = p
       | _ \<Rightarrow> False))"

text \<open>
  A sample by value: under each key, the type tag and the array of an image entry as
  the store holds it, or the payload of another entry. And the crop of such a value
  by a window.
\<close>

definition entry_value :: "ndarray list \<Rightarrow> 'p entry \<Rightarrow> (image_type \<times> ndarray) + 'p" where
  "entry_value store e =
     (case e of ImageEntry d \<Rightarrow> Inl (type d, store ! data d) | AuxEntry p \<Rightarrow> Inr p)"

definition sample_values :: "state \<Rightarrow> 'p sample \<Rightarrow> (string \<times> ((image_type \<times> ndarray) + 'p)) list" where
  "sample_values st sample = map (\<lambda>e. (fst e, entry_value (arrays st) (snd e))) sample"

definition crop_value ::
  "window \<Rightarrow> string \<times> ((image_type \<times> ndarray) + 'p) \<Rightarrow> string \<times> ((image_type \<times> ndarray) + 'p)" where
  "crop_value w kv =
     (fst kv, case snd kv of
                Inl ta \<Rightarrow> Inl (fst ta, crop (snd ta) (fst w) (snd w))
              | Inr p \<Rightarrow> Inr p)"

subsection \<open>Concrete inputs\<close>

text \<open>
  A store with three arrays of shape (1, 2, 2, 3): an intensity volume, a label volume
  whose only foreground voxel is the last one, and a label volume without foreground.
\<close>

definition t1_volume :: ndarray where
  "t1_volume = \<lparr>shape = [1, 2, 2, 3], flat = [1, 2, 3, 4, 5, 6, 7, 8, 9, 10, 11, 12]\<rparr>"

definition seg_volume :: ndarray where
  "seg_volume = \<lparr>shape = [1, 2, 2, 3], flat = [0, 0, 0, 0, 0, 0, 0, 0, 0, 0, 0, 1]\<rparr>"

definition blank_volume :: ndarray where
  "blank_volume = \<lparr>shape = [1, 2, 2, 3], flat = [0, 0, 0, 0, 0, 0, 0, 0, 0, 0, 0, 0]\<rparr>"

definition state0 :: state where
  "state0 = \<lparr>arrays = [t1_volume, seg_volume, blank_volume], drawn = 0, located = 0\<rparr>"

text \<open>Samples over that store: a scan with its segmentation, and variations of it.\<close>

definition scan :: "int sample" where
  "scan = [(''t1'', ImageEntry \<lparr>data = 0, type = INTENSITY\<rparr>), (''age'', AuxEntry 42),
           (''seg'', ImageEntry \<lparr>data = 1, type = LABEL\<rparr>)]"

definition two_labels :: "int sample" where
  "two_labels = [(''t1'', ImageEntry \<lparr>data = 0, type = INTENSITY\<rparr>), (''age'', AuxEntry 42),
                 (''label_a'', ImageEntry \<lparr>data = 1, type = LABEL\<rparr>),
                 (''label_b'', ImageEntry \<lparr>data = 2, type = LABEL\<rparr>)]"

definition unlabelled :: "int sample" where
  "unlabelled = [(''t1'', ImageEntry \<lparr>data = 0, type = INTENSITY\<rparr>), (''age'', AuxEntry 42)]"

definition blank_scan :: "int sample" where
  "blank_scan = [(''t1'', ImageEntry \<lparr>data = 0, type = INTENSITY\<rparr>),
                 (''seg'', ImageEntry \<lparr>data = 2, type = LABEL\<rparr>)]"

text \<open>
  A source of windows of the requested patch size: the first two windows start at the
  origin, every later one at (1, 1, 1). For the patch size (1, 1, 2) the first two miss
  the foreground voxel of the segmentation and every later one contains it.
\<close>

definition windows0 :: "int index_source" where
  "windows0 k store sample patch_size =
     (let index_ini = (if k < 2 then [0, 0, 0] else [1, 1, 1])
      in (index_ini, map2 (+) index_ini patch_size))"

text \<open>
  The run of \<^verbatim>\<open>extract_patch\<close> on the scan with those windows accepts the third window: the
  sample it returns, and the state it leaves.
\<close>

definition scan_patch :: "int sample" where
  "scan_patch = [(''t1'', ImageEntry \<lparr>data = 3, type = INTENSITY\<rparr>), (''age'', AuxEntry 42),
                 (''seg'', ImageEntry \<lparr>data = 4, type = LABEL\<rparr>)]"

definition state1 :: state where
  "state1 = \<lparr>arrays = [t1_volume, seg_volume, blank_volume,
                        \<lparr>shape = [1, 1, 1, 2], flat = [11, 12]\<rparr>,
                        \<lparr>shape = [1, 1, 1, 2], flat = [0, 1]\<rparr>],
             drawn = 3, located = 1\<rparr>"

text \<open>
  The second call of \<^verbatim>\<open>extract_patch\<close> on the scan with the same source, which accepts the
  fourth window at once: the sample it returns, and the state it leaves.
\<close>

definition scan_patch2 :: "int sample" where
  "scan_patch2 = [(''t1'', ImageEntry \<lparr>data = 5, type = INTENSITY\<rparr>), (''age'', AuxEntry 42),
                  (''seg'', ImageEntry \<lparr>data = 6, type = LABEL\<rparr>)]"

definition state2 :: state where
  "state2 = \<lparr>arrays = [t1_volume, seg_volume, blank_volume,
                        \<lparr>shape = [1, 1, 1, 2], flat = [11, 12]\<rparr>,
                        \<lparr>shape = [1, 1, 1, 2], flat = [0, 1]\<rparr>,
                        \<lparr>shape = [1, 1, 1, 2], flat = [11, 12]\<rparr>,
                        \<lparr>shape = [1, 1, 1, 2], flat = [0, 1]\<rparr>],
             drawn = 4, located = 2\<rparr>"

text \<open>
  A second source, which answers its requests from the fourth on as the first source
  answers from the first on; and the state that a call with it leaves after the first
  call above: the same arrays as the second call above, after three requests.
\<close>

definition windows1 :: "int index_source" where
  "windows1 k store sample patch_size = windows0 (k - 3) store sample patch_size"

definition state3 :: state where
  "state3 = \<lparr>arrays = [t1_volume, seg_volume, blank_volume,
                        \<lparr>shape = [1, 1, 1, 2], flat = [11, 12]\<rparr>,
                        \<lparr>shape = [1, 1, 1, 2], flat = [0, 1]\<rparr>,
                        \<lparr>shape = [1, 1, 1, 2], flat = [11, 12]\<rparr>,
                        \<lparr>shape = [1, 1, 1, 2], flat = [0, 1]\<rparr>],
             drawn = 6, located = 2\<rparr>"

text \<open>
  A label volume of two voxels without negative value whose sum is beyond the largest
  signed 64-bit integer.
\<close>

definition big_volume :: ndarray where
  "big_volume = \<lparr>shape = [1, 1, 1, 2], flat = [2 ^ 62, 2 ^ 62]\<rparr>"

section \<open>Properties\<close>

subsection \<open>The retry loop\<close>

lemma proposed_drawn [simp]:
  "proposed rand sample patch_size (st\<lparr>drawn := n\<rparr>) = proposed rand sample patch_size st"
  by (simp add: proposed_def fun_eq_iff)

lemma proposed_located [simp]:
  "proposed rand sample patch_size (st\<lparr>located := n\<rparr>) = proposed rand sample patch_size st"
  by (simp add: proposed_def fun_eq_iff)

lemma retry_loop_unfold:
  "retry_loop rand sample patch_size a st =
     (if has_label (arrays st ! a) (proposed rand sample patch_size st (drawn st))
      then Some (proposed rand sample patch_size st (drawn st), st\<lparr>drawn := Suc (drawn st)\<rparr>)
      else retry_loop rand sample patch_size a (st\<lparr>drawn := Suc (drawn st)\<rparr>))"
  by (subst retry_loop.simps) (simp add: get_random_indices_def proposed_def)

lemma accepted_by_now:
  assumes "has_label (arrays st ! a) (ws (drawn st))"
  shows "accepted_by ws a st (ws (drawn st)) (st\<lparr>drawn := Suc (drawn st)\<rparr>)"
  unfolding accepted_by_def using assms by auto

lemma accepted_by_later:
  assumes rej: "\<not> has_label (arrays st ! a) (ws (drawn st))"
      and later: "accepted_by ws a (st\<lparr>drawn := Suc (drawn st)\<rparr>) w st'"
  shows "accepted_by ws a st w st'"
proof -
  from later have h: "has_label (arrays st ! a) w"
    and d: "Suc (drawn st) < drawn st'"
    and w: "w = ws (drawn st' - 1)"
    and s: "located st' = located st" "arrays st' = arrays st"
    and r: "\<And>k. Suc (drawn st) \<le> k \<Longrightarrow> k < drawn st' - 1 \<Longrightarrow> \<not> has_label (arrays st ! a) (ws k)"
    unfolding accepted_by_def by auto
  have "\<not> has_label (arrays st ! a) (ws k)" if "drawn st \<le> k \<and> k < drawn st' - 1" for k
  proof (cases "k = drawn st")
    case True
    with rej show ?thesis by simp
  next
    case False
    with that have "Suc (drawn st) \<le> k" by simp
    from r[OF this] that show ?thesis by blast
  qed
  moreover from d have "drawn st < drawn st'" by simp
  ultimately show ?thesis unfolding accepted_by_def using h w s by blast
qed

lemma retry_loop_accepts:
  assumes "retry_loop rand sample patch_size a st = Some (w, st')"
  shows "accepted_by (proposed rand sample patch_size st) a st w st'"
proof -
  let ?P = "\<lambda>rand (sample :: 'a sample) (patch_size :: int list) a st y.
              accepted_by (proposed rand sample patch_size st) a st (fst y) (snd y)"
  have "?P rand sample patch_size a st (w, st')"
  proof (rule retry_loop.raw_induct[where P = ?P, OF _ assms])
    fix f and rand :: "'a index_source" and sample :: "'a sample" and patch_size a st y
    assume IH: "\<And>(rand :: 'a index_source) (sample :: 'a sample) patch_size a st y.
                  f rand sample patch_size a st = Some y \<Longrightarrow>
                  accepted_by (proposed rand sample patch_size st) a st (fst y) (snd y)"
       and step: "(case get_random_indices rand sample patch_size st of
                    (w, st') \<Rightarrow> if has_label (arrays st' ! a) w then Some (w, st')
                                else f rand sample patch_size a st') = Some y"
    let ?ws = "proposed rand sample patch_size st"
    show "accepted_by ?ws a st (fst y) (snd y)"
    proof (cases "has_label (arrays st ! a) (?ws (drawn st))")
      case True
      with step have "y = (?ws (drawn st), st\<lparr>drawn := Suc (drawn st)\<rparr>)"
        by (simp add: get_random_indices_def proposed_def)
      with accepted_by_now[of st a ?ws, OF True] show ?thesis by simp
    next
      case False
      with step have "f rand sample patch_size a (st\<lparr>drawn := Suc (drawn st)\<rparr>) = Some y"
        by (simp add: get_random_indices_def proposed_def)
      from IH[OF this]
      have "accepted_by ?ws a (st\<lparr>drawn := Suc (drawn st)\<rparr>) (fst y) (snd y)" by simp
      from accepted_by_later[OF False this] show ?thesis .
    qed
  qed
  then show ?thesis by simp
qed

lemma retry_loop_returns:
  assumes "has_label (arrays st ! a) (proposed rand sample patch_size st (drawn st + n))"
      and "\<forall>i<n. \<not> has_label (arrays st ! a) (proposed rand sample patch_size st (drawn st + i))"
  shows "retry_loop rand sample patch_size a st
         = Some (proposed rand sample patch_size st (drawn st + n), st\<lparr>drawn := Suc (drawn st + n)\<rparr>)"
  using assms
proof (induction n arbitrary: st)
  case 0
  then show ?case by (subst retry_loop_unfold) simp
next
  case (Suc n)
  let ?st = "st\<lparr>drawn := Suc (drawn st)\<rparr>"
  let ?ws = "proposed rand sample patch_size st"
  from Suc.prems(2) have r: "\<not> has_label (arrays st ! a) (?ws (drawn st))"
    using zero_less_Suc[of n] by fastforce
  have a: "has_label (arrays ?st ! a) (proposed rand sample patch_size ?st (drawn ?st + n))"
    using Suc.prems(1) by simp
  have b: "\<forall>i<n. \<not> has_label (arrays ?st ! a) (proposed rand sample patch_size ?st (drawn ?st + i))"
  proof (intro allI impI)
    fix i assume "i < n"
    then have "Suc i < Suc n" by simp
    with Suc.prems(2) have "\<not> has_label (arrays st ! a) (?ws (drawn st + Suc i))" by blast
    then show "\<not> has_label (arrays ?st ! a) (proposed rand sample patch_size ?st (drawn ?st + i))"
      by simp
  qed
  have "retry_loop rand sample patch_size a st = retry_loop rand sample patch_size a ?st"
    using r by (subst retry_loop_unfold) simp
  also have "\<dots> = Some (proposed rand sample patch_size ?st (drawn ?st + n),
                          ?st\<lparr>drawn := Suc (drawn ?st + n)\<rparr>)"
    by (rule Suc.IH[OF a b])
  finally show ?case by simp
qed

lemma retry_loop_diverges:
  assumes "\<forall>k\<ge>drawn st. \<not> has_label (arrays st ! a) (proposed rand sample patch_size st k)"
  shows "retry_loop rand sample patch_size a st = None"
proof (cases "retry_loop rand sample patch_size a st")
  case None then show ?thesis .
next
  case (Some y)
  obtain w st' where y: "y = (w, st')" by (cases y)
  from retry_loop_accepts[OF Some[unfolded y]]
  have h: "has_label (arrays st ! a) (proposed rand sample patch_size st (drawn st' - 1))"
    and d: "drawn st < drawn st'"
    unfolding accepted_by_def by auto
  from d have "drawn st \<le> drawn st' - 1" by simp
  with assms h show ?thesis by blast
qed

subsection \<open>Cropping\<close>

lemma ravel_less:
  "list_all2 (\<lambda>i n. i < n) idx sh \<Longrightarrow> ravel sh idx < prod_list sh"
proof (induction idx sh rule: list_all2_induct)
  case Nil
  then show ?case by simp
next
  case (Cons i idx n sh)
  have "i * prod_list sh + ravel sh idx < i * prod_list sh + prod_list sh"
    using Cons.IH by simp
  also have "\<dots> = Suc i * prod_list sh" by simp
  also have "\<dots> \<le> n * prod_list sh"
    using Cons.hyps(1) by (intro mult_le_mono1) simp
  finally show ?case by simp
qed

lemma slice_bound_le: "slice_bound i n \<le> n"
  unfolding slice_bound_def by (cases "i < 0") simp_all

lemma slice_range_less: "k \<in> set (slice_range i f n) \<Longrightarrow> k < n"
  using slice_bound_le[of f n] by (simp add: slice_range_def)

lemma spatial_ranges_within:
  "length es \<le> length ws \<Longrightarrow>
   list_all2 (\<lambda>r e. \<forall>k\<in>set r. k < e) (map (\<lambda>((i, f), e). slice_range i f e) (zip ws es)) es"
proof (induction es arbitrary: ws)
  case Nil
  then show ?case by simp
next
  case (Cons e es)
  then obtain w ws' where ws: "ws = w # ws'" by (cases ws) auto
  obtain i f where w: "w = (i, f)" by (cases w)
  from Cons.prems ws have "length es \<le> length ws'" by simp
  from Cons.IH[OF this] show ?case
    by (simp add: ws w slice_range_less)
qed

lemma lead_ranges_within:
  "list_all2 (\<lambda>r e. \<forall>k\<in>set r. k < e) (map (\<lambda>c. [0 ..< c]) lead) lead"
  by (induction lead) simp_all

lemma crop_ranges_within:
  "list_all2 (\<lambda>r e. \<forall>k\<in>set r. k < e) (crop_ranges sh index_ini index_fin) sh"
proof -
  define n where "n = length (zip index_ini index_fin)"
  define lead where "lead = take (length sh - n) sh"
  define extent where "extent = drop (length sh - n) sh"
  have sh: "sh = lead @ extent" by (simp add: lead_def extent_def)
  have "length extent \<le> length (zip index_ini index_fin)"
    unfolding extent_def n_def by (simp add: min_def)
  then have "list_all2 (\<lambda>r e. \<forall>k\<in>set r. k < e)
      (map (\<lambda>((i, f), e). slice_range i f e) (zip (zip index_ini index_fin) extent)) extent"
    by (rule spatial_ranges_within)
  with lead_ranges_within[of lead]
  have "list_all2 (\<lambda>r e. \<forall>k\<in>set r. k < e)
      (map (\<lambda>c. [0 ..< c]) lead @
       map (\<lambda>((i, f), e). slice_range i f e) (zip (zip index_ini index_fin) extent)) (lead @ extent)"
    by (rule list_all2_appendI)
  then show ?thesis
    unfolding crop_ranges_def Let_def n_def[symmetric] lead_def[symmetric] extent_def[symmetric]
    using sh by simp
qed

lemma crop_index_within:
  assumes "idx \<in> set (product_lists (crop_ranges sh index_ini index_fin))"
  shows "ravel sh idx < prod_list sh"
proof -
  from assms have "list_all2 (\<lambda>k r. k \<in> set r) idx (crop_ranges sh index_ini index_fin)"
    by (simp add: product_lists_set)
  with crop_ranges_within[of sh index_ini index_fin]
  have "list_all2 (\<lambda>i n. i < n) idx sh"
    by (auto simp: list_all2_conv_all_nth)
  then show ?thesis by (rule ravel_less)
qed

lemma crop_voxels_subset:
  assumes "wf_array a"
  shows "set (flat (crop a index_ini index_fin)) \<subseteq> set (flat a)"
proof
  fix v assume "v \<in> set (flat (crop a index_ini index_fin))"
  then obtain idx where idx: "idx \<in> set (product_lists (crop_ranges (shape a) index_ini index_fin))"
    and v: "v = flat a ! ravel (shape a) idx"
    by (auto simp: crop_def Let_def)
  from crop_index_within[OF idx] assms have "ravel (shape a) idx < length (flat a)"
    by (simp add: wf_array_def)
  with v show "v \<in> set (flat a)" by simp
qed

lemma wf_crop: "wf_array (crop a index_ini index_fin)"
  by (simp add: wf_array_def crop_def Let_def length_product_lists prod_list.eq_foldr)

lemma sum_list_pos_iff:
  fixes xs :: "int list"
  assumes "\<forall>v\<in>set xs. 0 \<le> v"
  shows "(0 < sum_list xs) = (\<exists>v\<in>set xs. 0 < v)"
  using assms
proof (induction xs)
  case Nil
  then show ?case by simp
next
  case (Cons x xs)
  then have "0 \<le> x" "0 \<le> sum_list xs" by (simp_all add: sum_list_nonneg)
  with Cons show ?case by auto
qed

lemma sum_list_nonpos_int:
  fixes xs :: "int list"
  shows "\<forall>v\<in>set xs. v \<le> 0 \<Longrightarrow> sum_list xs \<le> 0"
  by (induction xs) auto

lemma sum_list_pos_has_pos:
  fixes xs :: "int list"
  assumes "0 < sum_list xs"
  shows "\<exists>v\<in>set xs. 0 < v"
proof (rule ccontr)
  assume "\<not> (\<exists>v\<in>set xs. 0 < v)"
  then have "\<forall>v\<in>set xs. v \<le> 0" by (simp add: not_less)
  then have "sum_list xs \<le> 0" by (rule sum_list_nonpos_int)
  with assms show False by simp
qed

lemma wrap_int64_id:
  assumes "- (2 ^ 63) \<le> n" and "n < 2 ^ 63"
  shows "wrap_int64 n = n"
proof -
  from assms have "0 \<le> n + 2 ^ 63" and "n + 2 ^ 63 < 2 ^ 64" by simp_all
  then have "(n + 2 ^ 63) mod 2 ^ 64 = n + 2 ^ 63" by (rule mod_pos_pos_trivial)
  then show ?thesis by (simp add: wrap_int64_def)
qed

lemma wrap_int64_zero: "wrap_int64 0 = 0"
  by (rule wrap_int64_id) simp_all

lemma sum_list_zero:
  fixes xs :: "int list"
  shows "\<forall>v\<in>set xs. v = 0 \<Longrightarrow> sum_list xs = 0"
  by (induction xs) auto

lemma sum_nd_pos_nonzero:
  assumes "0 < sum_nd a"
  shows "\<exists>v\<in>set (flat a). v \<noteq> 0"
proof (rule ccontr)
  assume "\<not> (\<exists>v\<in>set (flat a). v \<noteq> 0)"
  then have "sum_list (flat a) = 0" by (intro sum_list_zero) simp
  with assms show False by (simp add: sum_nd_def wrap_int64_zero)
qed

lemma slice_length:
  assumes "0 \<le> i" "0 \<le> p" "i + p \<le> int e"
  shows "length (slice_range i (i + p) e) = nat p"
proof -
  from assms have "nat (i + p) \<le> e" "nat i \<le> e" "nat (i + p) - nat i = nat p"
    by linarith+
  with assms show ?thesis
    by (simp add: slice_range_def slice_bound_def)
qed

lemma map_length_lead: "map (length \<circ> upt 0) lead = lead"
  by (induction lead) simp_all

lemma crop_shape:
  assumes w: "crop_window extent patch_size (index_ini, index_fin)"
      and p: "\<forall>p\<in>set patch_size. 0 \<le> p"
      and e: "length extent \<le> length (shape a)"
             "drop (length (shape a) - length extent) (shape a) = extent"
  shows "shape (crop a index_ini index_fin)
         = take (length (shape a) - length extent) (shape a) @ map nat patch_size"
proof -
  from w have len: "length index_ini = length extent" "length index_fin = length extent"
     "length patch_size = length extent"
    and win: "\<And>d. d < length extent \<Longrightarrow> index_fin ! d = index_ini ! d + patch_size ! d \<and>
           0 \<le> index_ini ! d \<and> index_fin ! d \<le> int (extent ! d)"
    unfolding crop_window_def by auto
  have "map length (map (\<lambda>((i, f), e). slice_range i f e) (zip (zip index_ini index_fin) extent))
        = map nat patch_size"
  proof (rule nth_equalityI)
    show "length (map length (map (\<lambda>((i, f), e). slice_range i f e) (zip (zip index_ini index_fin) extent)))
          = length (map nat patch_size)"
      using len by simp
  next
    fix d assume "d < length (map length (map (\<lambda>((i, f), e). slice_range i f e) (zip (zip index_ini index_fin) extent)))"
    then have d: "d < length extent" using len by simp
    from win[OF d] p len d have "length (slice_range (index_ini ! d) (index_fin ! d) (extent ! d)) = nat (patch_size ! d)"
      using slice_length[of "index_ini ! d" "patch_size ! d" "extent ! d"] by simp
    with d len show "map length (map (\<lambda>((i, f), e). slice_range i f e) (zip (zip index_ini index_fin) extent)) ! d
          = map nat patch_size ! d"
      by simp
  qed
  then show ?thesis
    using len e by (simp add: crop_def crop_ranges_def Let_def map_length_lead)
qed

lemma copy_and_crop_frame:
  "copy_and_crop sample index_ini index_fin st = (cropped, st') \<Longrightarrow>
   \<exists>new. arrays st' = arrays st @ new \<and> drawn st' = drawn st \<and> located st' = located st"
proof (induction sample index_ini index_fin st arbitrary: cropped st' rule: copy_and_crop.induct)
  case (1 index_ini index_fin st)
  then show ?case by simp
next
  case (2 key p rest index_ini index_fin st)
  obtain c s where r: "copy_and_crop rest index_ini index_fin st = (c, s)"
    by (cases "copy_and_crop rest index_ini index_fin st")
  with "2.prems" have "st' = s" by simp
  with "2.IH"[OF r] show ?case by simp
next
  case (3 key image_dict rest index_ini index_fin st)
  define st1 where "st1 = st\<lparr>arrays := arrays st @ [crop (arrays st ! data image_dict) index_ini index_fin]\<rparr>"
  have n: "new_array (crop (arrays st ! data image_dict) index_ini index_fin) st = (length (arrays st), st1)"
    by (simp add: new_array_def st1_def)
  obtain c s where r: "copy_and_crop rest index_ini index_fin st1 = (c, s)"
    by (cases "copy_and_crop rest index_ini index_fin st1")
  with "3.prems" n have "st' = s" by simp
  with "3.IH"[OF n[symmetric] r] obtain new where
    "arrays st' = arrays st1 @ new" "drawn st' = drawn st1" "located st' = located st1" by blast
  then show ?case by (simp add: st1_def)
qed

lemma copy_and_crop_entries_gen:
  assumes "list_all (\<lambda>d. data d < length base) (images_of sample)"
      and "take (length base) (arrays st) = base"
      and "copy_and_crop sample index_ini index_fin st = (cropped, st')"
  shows "list_all2 (cropped_entry base (arrays st') (index_ini, index_fin)) sample cropped"
  using assms
proof (induction sample index_ini index_fin st arbitrary: cropped st' rule: copy_and_crop.induct)
  case (1 index_ini index_fin st)
  then show ?case by simp
next
  case (2 key p rest index_ini index_fin st)
  obtain c s where r: "copy_and_crop rest index_ini index_fin st = (c, s)"
    by (cases "copy_and_crop rest index_ini index_fin st")
  with "2.prems"(3) have eq: "st' = s" "cropped = (key, AuxEntry p) # c" by auto
  from "2.prems"(1) have "list_all (\<lambda>d. data d < length base) (images_of rest)" by simp
  from "2.IH"[OF this "2.prems"(2) r] eq show ?case
    by (simp add: cropped_entry_def)
next
  case (3 key image_dict rest index_ini index_fin st)
  define c0 where "c0 = crop (arrays st ! data image_dict) index_ini index_fin"
  define st1 where "st1 = st\<lparr>arrays := arrays st @ [c0]\<rparr>"
  have n: "new_array (crop (arrays st ! data image_dict) index_ini index_fin) st = (length (arrays st), st1)"
    by (simp add: new_array_def st1_def c0_def)
  obtain c s where r: "copy_and_crop rest index_ini index_fin st1 = (c, s)"
    by (cases "copy_and_crop rest index_ini index_fin st1")
  with "3.prems"(3) n have eq: "st' = s"
      "cropped = (key, ImageEntry (image_dict\<lparr>data := length (arrays st)\<rparr>)) # c" by auto
  from "3.prems"(1) have d: "data image_dict < length base"
    and rest: "list_all (\<lambda>d. data d < length base) (images_of rest)" by simp_all
  have len: "length base \<le> length (arrays st)"
  proof -
    have "length (take (length base) (arrays st)) \<le> length (arrays st)" by simp
    with "3.prems"(2) show ?thesis by simp
  qed
  from "3.prems"(2) len have pre: "take (length base) (arrays st1) = base"
    by (simp add: st1_def)
  from "3.IH"[OF n[symmetric] rest pre r]
  have tail: "list_all2 (cropped_entry base (arrays s) (index_ini, index_fin)) rest c" .
  from copy_and_crop_frame[OF r] obtain new where "arrays s = arrays st1 @ new" by blast
  then have "arrays s ! length (arrays st) = c0"
    by (simp add: st1_def nth_append)
  moreover from "3.prems"(2) d have "arrays st ! data image_dict = base ! data image_dict"
    by (metis nth_take)
  ultimately have "cropped_entry base (arrays s) (index_ini, index_fin)
      (key, ImageEntry image_dict) (key, ImageEntry (image_dict\<lparr>data := length (arrays st)\<rparr>))"
    by (simp add: cropped_entry_def c0_def)
  with tail eq show ?case by simp
qed

lemma copy_and_crop_entries:
  assumes "sample_in_store sample st"
      and "copy_and_crop sample index_ini index_fin st = (cropped, st')"
  shows "list_all2 (cropped_entry (arrays st) (arrays st') (index_ini, index_fin)) sample cropped"
  using copy_and_crop_entries_gen[of "arrays st" sample st index_ini index_fin cropped st'] assms
  by (simp add: sample_in_store_def)

lemma copy_and_crop_fresh:
  "copy_and_crop sample index_ini index_fin st = (cropped, st') \<Longrightarrow>
   list_all (\<lambda>d'. length (arrays st) \<le> data d' \<and> data d' < length (arrays st')) (images_of cropped)"
proof (induction sample index_ini index_fin st arbitrary: cropped st' rule: copy_and_crop.induct)
  case (1 index_ini index_fin st)
  then show ?case by auto
next
  case (2 key p rest index_ini index_fin st)
  obtain c s where r: "copy_and_crop rest index_ini index_fin st = (c, s)"
    by (cases "copy_and_crop rest index_ini index_fin st")
  with "2.prems" have eq: "st' = s" "cropped = (key, AuxEntry p) # c" by auto
  with "2.IH"[OF r] show ?case by simp
next
  case (3 key image_dict rest index_ini index_fin st)
  define st1 where "st1 = st\<lparr>arrays := arrays st @ [crop (arrays st ! data image_dict) index_ini index_fin]\<rparr>"
  have n: "new_array (crop (arrays st ! data image_dict) index_ini index_fin) st = (length (arrays st), st1)"
    by (simp add: new_array_def st1_def)
  obtain c s where r: "copy_and_crop rest index_ini index_fin st1 = (c, s)"
    by (cases "copy_and_crop rest index_ini index_fin st1")
  with "3.prems" n have eq: "st' = s"
      "cropped = (key, ImageEntry (image_dict\<lparr>data := length (arrays st)\<rparr>)) # c" by auto
  from copy_and_crop_frame[OF r] obtain new where a: "arrays s = arrays st1 @ new" by blast
  from "3.IH"[OF n[symmetric] r]
  have "list_all (\<lambda>d'. length (arrays st1) \<le> data d' \<and> data d' < length (arrays s)) (images_of c)" .
  then have "list_all (\<lambda>d'. length (arrays st) \<le> data d' \<and> data d' < length (arrays s)) (images_of c)"
    by (auto simp: list_all_iff st1_def)
  with a eq show ?case by (simp add: st1_def)
qed

subsection \<open>The label locator\<close>

lemma first_label_aux [simp]: "first_label (AuxEntry p # rest) = first_label rest"
  by simp

lemma first_label_image [simp]:
  "first_label (ImageEntry d # rest) = (if type d = LABEL then Inr d else first_label rest)"
  by simp

declare first_label.simps(2) [simp del]

lemma first_label_induct:
  assumes "P []"
      and "\<And>p rest. P rest \<Longrightarrow> P (AuxEntry p # rest)"
      and "\<And>d rest. (type d \<noteq> LABEL \<Longrightarrow> P rest) \<Longrightarrow> P (ImageEntry d # rest)"
  shows "P es"
proof (induction es)
  case Nil
  from assms(1) show ?case .
next
  case (Cons e es)
  show ?case
  proof (cases e)
    case (ImageEntry d)
    with assms(3)[of d es] Cons show ?thesis by simp
  next
    case (AuxEntry p)
    with assms(2)[of es p] Cons show ?thesis by simp
  qed
qed

lemma first_label_Inr:
  "first_label es = Inr d \<Longrightarrow>
   \<exists>pre post. es = pre @ ImageEntry d # post \<and> type d = LABEL \<and> (\<forall>e\<in>set pre. \<not> is_label_entry e)"
proof (induction es rule: first_label_induct)
  case 1
  then show ?case by simp
next
  case (2 p rest)
  then obtain pre post where "rest = pre @ ImageEntry d # post" "type d = LABEL"
    "\<forall>e\<in>set pre. \<not> is_label_entry e" by auto
  then have "AuxEntry p # rest = (AuxEntry p # pre) @ ImageEntry d # post \<and> type d = LABEL
      \<and> (\<forall>e\<in>set (AuxEntry p # pre). \<not> is_label_entry e)" by simp
  then show ?case by blast
next
  case (3 image_dict rest)
  show ?case
  proof (cases "type image_dict = LABEL")
    case True
    with 3(2) have "d = image_dict" by simp
    with True have "ImageEntry image_dict # rest = [] @ ImageEntry d # rest \<and> type d = LABEL
      \<and> (\<forall>e\<in>set []. \<not> is_label_entry e)" by simp
    then show ?thesis by blast
  next
    case False
    with 3 obtain pre post where "rest = pre @ ImageEntry d # post" "type d = LABEL"
      "\<forall>e\<in>set pre. \<not> is_label_entry e" by auto
    with False have "ImageEntry image_dict # rest = (ImageEntry image_dict # pre) @ ImageEntry d # post
      \<and> type d = LABEL \<and> (\<forall>e\<in>set (ImageEntry image_dict # pre). \<not> is_label_entry e)" by simp
    then show ?thesis by blast
  qed
qed

lemma first_label_none:
  "(\<forall>e\<in>set es. \<not> is_label_entry e) \<Longrightarrow> first_label es = Inl NoLabelFound"
  by (induction es rule: first_label_induct) simp_all

lemma first_label_some:
  "\<exists>e\<in>set es. is_label_entry e \<Longrightarrow> \<exists>d. first_label es = Inr d"
  by (induction es rule: first_label_induct) auto

text \<open>
  C4. For every sample with at least one label-tagged image entry, the label locator
  goes through the entries in their iteration order, skips the entries that are not
  images, and returns the first image entry whose type is the label tag (whose data
  array the sampler then reads): the entries split into a prefix without label-tagged
  entry, the returned entry, and the rest. The run changes nothing but the count of
  the locator's runs: the store, and with it every array of the sample, is as before.
\<close>
theorem locator_returns_first_label:
  assumes "\<exists>e\<in>set (values_of sample). is_label_entry e"
  shows "\<exists>pre d post. values_of sample = pre @ ImageEntry d # post \<and> type d = LABEL \<and>
           (\<forall>e\<in>set pre. \<not> is_label_entry e) \<and>
           get_first_label_image_dict sample st = (Inr d, st\<lparr>located := Suc (located st)\<rparr>)"
proof -
  from first_label_some[OF assms] obtain d where d: "first_label (values_of sample) = Inr d" ..
  from first_label_Inr[OF d] d show ?thesis
    unfolding get_first_label_image_dict_def by blast
qed

theorem locator_returns_first_label_witness:
  "list_ex is_label_entry (values_of two_labels) \<and>
   (\<exists>pre d post. values_of two_labels = pre @ ImageEntry d # post \<and> type d = LABEL \<and>
           (\<forall>e\<in>set pre. \<not> is_label_entry e) \<and>
           get_first_label_image_dict two_labels state0
             = (Inr d, state0\<lparr>located := Suc (located state0)\<rparr>)) \<and>
   fst (get_first_label_image_dict two_labels state0) = Inr \<lparr>data = 1, type = LABEL\<rparr>"
proof -
  have h: "\<exists>e\<in>set (values_of two_labels). is_label_entry e"
    by (simp add: two_labels_def values_of_def)
  have "fst (get_first_label_image_dict two_labels state0) = Inr \<lparr>data = 1, type = LABEL\<rparr>"
    by (simp add: two_labels_def values_of_def get_first_label_image_dict_def)
  with h locator_returns_first_label[OF h, of state0] show ?thesis by (simp add: list_ex_iff)
qed

text \<open>
  C3. For every sample without label-tagged image entry, \<^verbatim>\<open>extract_patch\<close> fails with the
  error of the locator, whatever the random index generator would have answered: no
  window has been requested (the count of requests is unchanged), the locator has run
  once, no array has been created, and the result is the error alone.
\<close>
theorem no_label_fails_before_randomness:
  assumes "\<forall>e\<in>set (values_of sample). \<not> is_label_entry e"
  shows "extract_patch rand sample patch_size st
         = Some (Inl NoLabelFound, st\<lparr>located := Suc (located st)\<rparr>)"
  using first_label_none[OF assms]
  by (simp add: extract_patch_def get_first_label_image_dict_def)

theorem no_label_fails_before_randomness_witness:
  "list_all (\<lambda>e. \<not> is_label_entry e) (values_of unlabelled) \<and>
   extract_patch windows0 unlabelled [1, 1, 2] state0
     = Some (Inl (ValueError ''No images of type torchio.LABEL found in sample''),
             \<lparr>arrays = [t1_volume, seg_volume, blank_volume], drawn = 0, located = 1\<rparr>)"
proof -
  have h: "\<forall>e\<in>set (values_of unlabelled). \<not> is_label_entry e"
    by (simp add: unlabelled_def values_of_def)
  from no_label_fails_before_randomness[OF h, of windows0 "[1, 1, 2]" state0]
  show ?thesis using h by (simp add: NoLabelFound_def state0_def list_all_iff)
qed

subsection \<open>The rejection sampler\<close>

lemma locator_result:
  "fst (get_first_label_image_dict sample st) = first_label (values_of sample)"
  "snd (get_first_label_image_dict sample st) = st\<lparr>located := Suc (located st)\<rparr>"
  by (simp_all add: get_first_label_image_dict_def)

lemma crop_seg_miss: "crop seg_volume [0, 0, 0] [1, 1, 2] = \<lparr>shape = [1, 1, 1, 2], flat = [0, 0]\<rparr>"
  by (simp add: crop_def crop_ranges_def seg_volume_def slice_range_def slice_bound_def upt_rec)

lemma crop_seg_hit: "crop seg_volume [1, 1, 1] [2, 2, 3] = \<lparr>shape = [1, 1, 1, 2], flat = [0, 1]\<rparr>"
  by (simp add: crop_def crop_ranges_def seg_volume_def slice_range_def slice_bound_def upt_rec)

lemma crop_t1_hit: "crop t1_volume [1, 1, 1] [2, 2, 3] = \<lparr>shape = [1, 1, 1, 2], flat = [11, 12]\<rparr>"
  by (simp add: crop_def crop_ranges_def t1_volume_def slice_range_def slice_bound_def upt_rec)

lemma seg_miss: "\<not> has_label seg_volume ([0, 0, 0], [1, 1, 2])"
  by (simp add: has_label_def crop_seg_miss sum_nd_def wrap_int64_def)

lemma seg_hit: "has_label seg_volume ([1, 1, 1], [2, 2, 3])"
  by (simp add: has_label_def crop_seg_hit sum_nd_def wrap_int64_def)

lemma windows0_values:
  "k < 2 \<Longrightarrow> windows0 k store sample [1, 1, 2] = ([0, 0, 0], [1, 1, 2])"
  "2 \<le> k \<Longrightarrow> windows0 k store sample [1, 1, 2] = ([1, 1, 1], [2, 2, 3])"
  by (simp_all add: windows0_def)

lemma scan_loop:
  "retry_loop windows0 scan [1, 1, 2] 1 (state0\<lparr>located := Suc (located state0)\<rparr>)
   = Some (([1, 1, 1], [2, 2, 3]),
           \<lparr>arrays = [t1_volume, seg_volume, blank_volume], drawn = 3, located = 1\<rparr>)"
proof -
  let ?st = "state0\<lparr>located := Suc (located state0)\<rparr>"
  have a: "has_label (arrays ?st ! 1) (proposed windows0 scan [1, 1, 2] ?st (drawn ?st + 2))"
    by (simp add: state0_def proposed_def windows0_values seg_hit)
  have b: "\<forall>i<2. \<not> has_label (arrays ?st ! 1) (proposed windows0 scan [1, 1, 2] ?st (drawn ?st + i))"
    by (simp add: state0_def proposed_def windows0_values seg_miss)
  from retry_loop_returns[of ?st 1 windows0 scan "[1, 1, 2]" 2, OF a b]
  show ?thesis by (simp add: state0_def proposed_def windows0_values)
qed

lemma scan_label: "first_label (values_of scan) = Inr \<lparr>data = 1, type = LABEL\<rparr>"
  by (simp add: values_of_def scan_def)

lemma scan_run: "extract_patch windows0 scan [1, 1, 2] state0 = Some (Inr scan_patch, state1)"
proof -
  have c: "copy_and_crop scan [1, 1, 1] [2, 2, 3]
             \<lparr>arrays = [t1_volume, seg_volume, blank_volume], drawn = 3, located = 1\<rparr>
           = (scan_patch, state1)"
    by (simp add: scan_def scan_patch_def state1_def new_array_def crop_seg_hit crop_t1_hit)
  show ?thesis
    using scan_loop c by (simp add: extract_patch_def get_first_label_image_dict_def scan_label)
qed

lemma scan_in_store: "sample_in_store scan state0"
  by (simp add: sample_in_store_def scan_def state0_def)

lemma extract_patch_returns_sample:
  assumes "extract_patch rand sample patch_size st = Some (Inr cropped, st')"
  obtains d w st2 where
    "first_label (values_of sample) = Inr d"
    "retry_loop rand sample patch_size (data d) (st\<lparr>located := Suc (located st)\<rparr>) = Some (w, st2)"
    "copy_and_crop sample (fst w) (snd w) st2 = (cropped, st')"
proof (cases "first_label (values_of sample)")
  case (Inl e)
  with assms show ?thesis by (simp add: extract_patch_def get_first_label_image_dict_def)
next
  case (Inr d)
  let ?st1 = "st\<lparr>located := Suc (located st)\<rparr>"
  show ?thesis
  proof (cases "retry_loop rand sample patch_size (data d) ?st1")
    case None
    with assms Inr show ?thesis by (simp add: extract_patch_def get_first_label_image_dict_def)
  next
    case (Some y)
    obtain w st2 where y: "y = (w, st2)" by (cases y)
    obtain c s where cc: "copy_and_crop sample (fst w) (snd w) st2 = (c, s)"
      by (cases "copy_and_crop sample (fst w) (snd w) st2")
    with assms Inr Some y have "c = cropped" "s = st'"
      by (simp_all add: extract_patch_def get_first_label_image_dict_def split_beta)
    with cc Inr Some y that show ?thesis by blast
  qed
qed

lemma extract_patch_run:
  assumes "extract_patch rand sample patch_size st = Some (Inr cropped, st')"
  obtains d st2 where
    "first_label (values_of sample) = Inr d"
    "accepted_by (proposed rand sample patch_size st) (data d) (st\<lparr>located := Suc (located st)\<rparr>)
       (proposed rand sample patch_size st (drawn st' - 1)) st2"
    "copy_and_crop sample (fst (proposed rand sample patch_size st (drawn st' - 1)))
       (snd (proposed rand sample patch_size st (drawn st' - 1))) st2 = (cropped, st')"
    "drawn st2 = drawn st'" "located st' = Suc (located st)"
proof -
  let ?ws = "proposed rand sample patch_size st"
  from assms obtain d w st2 where
    d: "first_label (values_of sample) = Inr d" and
    r: "retry_loop rand sample patch_size (data d) (st\<lparr>located := Suc (located st)\<rparr>) = Some (w, st2)" and
    c: "copy_and_crop sample (fst w) (snd w) st2 = (cropped, st')"
    by (rule extract_patch_returns_sample)
  from retry_loop_accepts[OF r]
  have a: "accepted_by ?ws (data d) (st\<lparr>located := Suc (located st)\<rparr>) w st2" by simp
  then have w: "w = ?ws (drawn st2 - 1)" and l: "located st2 = Suc (located st)"
    unfolding accepted_by_def by auto
  from copy_and_crop_frame[OF c] have f: "drawn st' = drawn st2" "located st' = located st2" by auto
  from a c w f l d that show ?thesis by simp
qed

lemma cropped_first_label:
  assumes "list_all2 (cropped_entry store store' w) sample cropped"
      and "first_label (values_of sample) = Inr d"
  shows "\<exists>d'. first_label (values_of cropped) = Inr d' \<and>
           store' ! data d' = crop (store ! data d) (fst w) (snd w)"
  using assms
proof (induction sample cropped rule: list_all2_induct)
  case Nil
  then show ?case by (simp add: values_of_def)
next
  case (Cons e sample e' cropped)
  obtain k v where e: "e = (k, v)" by (cases e)
  obtain k' v' where e': "e' = (k', v')" by (cases e')
  show ?case
  proof (cases v)
    case (AuxEntry p)
    with Cons.hyps(1) e e' have "v' = AuxEntry p"
      by (cases v') (simp_all add: cropped_entry_def)
    with Cons AuxEntry e e' show ?thesis by (simp add: values_of_def)
  next
    case (ImageEntry i)
    with Cons.hyps(1) e e' obtain i' where i': "v' = ImageEntry i'" "type i' = type i"
      "store' ! data i' = crop (store ! data i) (fst w) (snd w)"
      by (cases v') (simp_all add: cropped_entry_def)
    show ?thesis
    proof (cases "type i = LABEL")
      case True
      with Cons.prems ImageEntry e have "d = i" by (simp add: values_of_def)
      with True i' e' show ?thesis by (simp add: values_of_def)
    next
      case False
      with Cons.prems ImageEntry e have "first_label (values_of sample) = Inr d"
        by (simp add: values_of_def)
      from Cons.IH[OF this] False i' e' show ?thesis by (simp add: values_of_def)
    qed
  qed
qed

text \<open>
  C1. For every sample (whose arrays are in the store) and patch size for which
  \<^verbatim>\<open>extract_patch\<close> returns a sample, the label sub-array of the returned sample, that is
  the array of its first label-tagged entry, is the crop of the input's first
  label-tagged entry's array by the accepted window (the last window requested), and
  its sum, the wrapping sum that the acceptance test computes, is positive. So it
  contains a foreground voxel: a voxel that is not zero, and a voxel greater than zero
  when the label array is well formed and has no negative value.
\<close>

theorem returned_patch_has_foreground:
  assumes "extract_patch rand sample patch_size st = Some (Inr cropped, st')"
      and "sample_in_store sample st"
  shows "\<exists>d d'. fst (get_first_label_image_dict sample st) = Inr d \<and>
           fst (get_first_label_image_dict cropped st') = Inr d' \<and>
           arrays st' ! data d' =
             crop (arrays st ! data d)
               (fst (proposed rand sample patch_size st (drawn st' - 1)))
               (snd (proposed rand sample patch_size st (drawn st' - 1))) \<and>
           0 < sum_nd (arrays st' ! data d') \<and>
           (\<exists>v\<in>set (flat (arrays st' ! data d')). v \<noteq> 0) \<and>
           (wf_array (arrays st ! data d) \<and> (\<forall>v\<in>set (flat (arrays st ! data d)). 0 \<le> v) \<longrightarrow>
              (\<exists>v\<in>set (flat (arrays st' ! data d')). 0 < v))"
proof -
  let ?w = "proposed rand sample patch_size st (drawn st' - 1)"
  from assms(1) obtain d st2 where
    d: "first_label (values_of sample) = Inr d" and
    a: "accepted_by (proposed rand sample patch_size st) (data d)
          (st\<lparr>located := Suc (located st)\<rparr>) ?w st2" and
    c: "copy_and_crop sample (fst ?w) (snd ?w) st2 = (cropped, st')"
    by (rule extract_patch_run)
  from a have s2: "arrays st2 = arrays st" and h: "has_label (arrays st ! data d) ?w"
    unfolding accepted_by_def by auto
  from assms(2) s2 have "sample_in_store sample st2" by (simp add: sample_in_store_def)
  from copy_and_crop_entries[OF this c] s2
  have "list_all2 (cropped_entry (arrays st) (arrays st') ?w) sample cropped" by simp
  from cropped_first_label[OF this d]
  obtain d' where d': "first_label (values_of cropped) = Inr d'"
    "arrays st' ! data d' = crop (arrays st ! data d) (fst ?w) (snd ?w)" by blast
  with h have p: "0 < sum_nd (arrays st' ! data d')" by (simp add: has_label_def)
  then obtain v where v: "v \<in> set (flat (arrays st' ! data d'))" "v \<noteq> 0"
    using sum_nd_pos_nonzero by blast
  have pos: "\<exists>v\<in>set (flat (arrays st' ! data d')). 0 < v"
    if "wf_array (arrays st ! data d) \<and> (\<forall>v\<in>set (flat (arrays st ! data d)). 0 \<le> v)"
  proof -
    from that crop_voxels_subset[of "arrays st ! data d" "fst ?w" "snd ?w"] d'(2) v(1)
    have "0 \<le> v" by auto
    with v show ?thesis by force
  qed
  from d d' p v pos show ?thesis
    unfolding locator_result by blast
qed

lemma scan_patch_label: "first_label (values_of scan_patch) = Inr \<lparr>data = 4, type = LABEL\<rparr>"
  by (simp add: values_of_def scan_patch_def)

theorem returned_patch_has_foreground_witness:
  "extract_patch windows0 scan [1, 1, 2] state0 = Some (Inr scan_patch, state1) \<and>
   (\<exists>d d'. fst (get_first_label_image_dict scan state0) = Inr d \<and>
           fst (get_first_label_image_dict scan_patch state1) = Inr d' \<and>
           arrays state1 ! data d' =
             crop (arrays state0 ! data d)
               (fst (proposed windows0 scan [1, 1, 2] state0 (drawn state1 - 1)))
               (snd (proposed windows0 scan [1, 1, 2] state0 (drawn state1 - 1))) \<and>
           0 < sum_nd (arrays state1 ! data d') \<and>
           (\<exists>v\<in>set (flat (arrays state1 ! data d')). v \<noteq> 0) \<and>
           (wf_array (arrays state0 ! data d) \<and> (\<forall>v\<in>set (flat (arrays state0 ! data d)). 0 \<le> v) \<longrightarrow>
              (\<exists>v\<in>set (flat (arrays state1 ! data d')). 0 < v))) \<and>
   wf_array (arrays state0 ! 1) \<and> list_all (\<lambda>v. 0 \<le> v) (flat (arrays state0 ! 1)) \<and>
   list_ex (\<lambda>v. 0 < v) (flat (arrays state1 ! 4))"
proof -
  have "wf_array (arrays state0 ! 1) \<and> list_all (\<lambda>v. 0 \<le> v) (flat (arrays state0 ! 1)) \<and>
        list_ex (\<lambda>v. 0 < v) (flat (arrays state1 ! 4))"
    by (simp add: state0_def state1_def seg_volume_def wf_array_def)
  with returned_patch_has_foreground[OF scan_run scan_in_store] scan_run show ?thesis by blast
qed

lemma crop_no_foreground:
  assumes "wf_array a" and "\<forall>v\<in>set (flat a). v = 0"
  shows "sum_nd (crop a index_ini index_fin) = 0"
proof -
  from crop_voxels_subset[OF assms(1), of index_ini index_fin] assms(2)
  have "\<forall>v\<in>set (flat (crop a index_ini index_fin)). v = 0" by blast
  then have "sum_list (flat (crop a index_ini index_fin)) = 0" by (rule sum_list_zero)
  then show ?thesis by (simp add: sum_nd_def wrap_int64_zero)
qed

text \<open>
  C2. If every crop window over the label volume has a sum that is not positive, as it
  is when the volume has no foreground voxel, then \<^verbatim>\<open>extract_patch\<close> never returns, for
  every patch size and every sequence of proposed windows: neither a sample nor an error.
\<close>

theorem no_foreground_never_returns:
  assumes "fst (get_first_label_image_dict sample st) = Inr d"
      and "\<forall>index_ini index_fin. sum_nd (crop (arrays st ! data d) index_ini index_fin) \<le> 0"
  shows "extract_patch rand sample patch_size st = None"
proof -
  let ?st1 = "st\<lparr>located := Suc (located st)\<rparr>"
  from assms(2)
  have "\<forall>k\<ge>drawn ?st1. \<not> has_label (arrays ?st1 ! data d) (proposed rand sample patch_size ?st1 k)"
    by (simp add: has_label_def not_less)
  then have "retry_loop rand sample patch_size (data d) ?st1 = None"
    by (rule retry_loop_diverges)
  with assms(1) show ?thesis by (simp add: extract_patch_def get_first_label_image_dict_def)
qed

lemma blank_no_foreground: "sum_nd (crop blank_volume index_ini index_fin) \<le> 0"
proof -
  have "sum_nd (crop blank_volume index_ini index_fin) = 0"
    by (rule crop_no_foreground) (simp_all add: blank_volume_def wf_array_def)
  then show ?thesis by simp
qed

theorem no_foreground_never_returns_witness:
  "fst (get_first_label_image_dict blank_scan state0) = Inr \<lparr>data = 2, type = LABEL\<rparr> \<and>
   extract_patch windows0 blank_scan [1, 1, 2] state0 = None"
proof -
  have l: "fst (get_first_label_image_dict blank_scan state0) = Inr \<lparr>data = 2, type = LABEL\<rparr>"
    by (simp add: get_first_label_image_dict_def values_of_def blank_scan_def)
  have z: "\<forall>index_ini index_fin.
      sum_nd (crop (arrays state0 ! data \<lparr>data = 2, type = LABEL\<rparr>) index_ini index_fin) \<le> 0"
    by (simp add: state0_def blank_no_foreground)
  from no_foreground_never_returns[OF l z, of windows0 "[1, 1, 2]"] l show ?thesis by simp
qed

text \<open>
  C5. For every sample returned by \<^verbatim>\<open>extract_patch\<close>, the entries of the returned sample
  are, one by one and under the same keys, the entries of the input cropped by one and
  the same window, the last window requested, whose label crop passed the acceptance
  test: every image entry's array is the crop of the input entry's array by that window,
  and every other entry is unchanged.
\<close>

theorem every_entry_cropped_by_accepted_window:
  assumes "extract_patch rand sample patch_size st = Some (Inr cropped, st')"
      and "sample_in_store sample st"
  shows "\<exists>d. fst (get_first_label_image_dict sample st) = Inr d \<and>
           has_label (arrays st ! data d) (proposed rand sample patch_size st (drawn st' - 1)) \<and>
           list_all2
             (cropped_entry (arrays st) (arrays st') (proposed rand sample patch_size st (drawn st' - 1)))
             sample cropped"
proof -
  let ?w = "proposed rand sample patch_size st (drawn st' - 1)"
  from assms(1) obtain d st2 where
    d: "first_label (values_of sample) = Inr d" and
    a: "accepted_by (proposed rand sample patch_size st) (data d)
          (st\<lparr>located := Suc (located st)\<rparr>) ?w st2" and
    c: "copy_and_crop sample (fst ?w) (snd ?w) st2 = (cropped, st')"
    by (rule extract_patch_run)
  from a have s2: "arrays st2 = arrays st" and h: "has_label (arrays st ! data d) ?w"
    unfolding accepted_by_def by auto
  from assms(2) s2 have "sample_in_store sample st2" by (simp add: sample_in_store_def)
  from copy_and_crop_entries[OF this c] s2
  have "list_all2 (cropped_entry (arrays st) (arrays st') ?w) sample cropped" by simp
  with d h show ?thesis unfolding locator_result by blast
qed

theorem every_entry_cropped_by_accepted_window_witness:
  "proposed windows0 scan [1, 1, 2] state0 (drawn state1 - 1) = ([1, 1, 1], [2, 2, 3]) \<and>
   (\<exists>d. fst (get_first_label_image_dict scan state0) = Inr d \<and>
        has_label (arrays state0 ! data d) (proposed windows0 scan [1, 1, 2] state0 (drawn state1 - 1)) \<and>
        list_all2
          (cropped_entry (arrays state0) (arrays state1)
             (proposed windows0 scan [1, 1, 2] state0 (drawn state1 - 1)))
          scan scan_patch)"
proof -
  have "proposed windows0 scan [1, 1, 2] state0 (drawn state1 - 1) = ([1, 1, 1], [2, 2, 3])"
    by (simp add: state1_def proposed_def windows0_values)
  with every_entry_cropped_by_accepted_window[OF scan_run scan_in_store] show ?thesis by simp
qed

subsection \<open>Shapes\<close>

lemma accepted_window_crops_entries:
  assumes "extract_patch rand sample patch_size st = Some (Inr cropped, st')"
      and "sample_in_store sample st"
  shows "list_all2
           (cropped_entry (arrays st) (arrays st') (proposed rand sample patch_size st (drawn st' - 1)))
           sample cropped"
proof -
  let ?w = "proposed rand sample patch_size st (drawn st' - 1)"
  from assms(1) obtain d st2 where
    d: "first_label (values_of sample) = Inr d" and
    a: "accepted_by (proposed rand sample patch_size st) (data d)
          (st\<lparr>located := Suc (located st)\<rparr>) ?w st2" and
    c: "copy_and_crop sample (fst ?w) (snd ?w) st2 = (cropped, st')"
    by (rule extract_patch_run)
  from a have s2: "arrays st2 = arrays st" unfolding accepted_by_def by auto
  from assms(2) s2 have "sample_in_store sample st2" by (simp add: sample_in_store_def)
  from copy_and_crop_entries[OF this c] s2 show ?thesis by simp
qed

lemma cropped_images:
  assumes "list_all2 (cropped_entry store store' w) sample cropped"
  shows "list_all2 (\<lambda>d d'. type d' = type d \<and> store' ! data d' = crop (store ! data d) (fst w) (snd w))
           (images_of sample) (images_of cropped)"
  using assms
proof (induction sample cropped rule: list_all2_induct)
  case Nil
  then show ?case by simp
next
  case (Cons e sample e' cropped)
  obtain k v where e: "e = (k, v)" by (cases e)
  obtain k' v' where e': "e' = (k', v')" by (cases e')
  show ?case
  proof (cases v)
    case (AuxEntry p)
    with Cons.hyps(1) e e' have "v' = AuxEntry p"
      by (cases v') (simp_all add: cropped_entry_def)
    with Cons.IH AuxEntry e e' show ?thesis by simp
  next
    case (ImageEntry i)
    with Cons.hyps(1) e e' obtain i' where "v' = ImageEntry i'" "type i' = type i"
      "store' ! data i' = crop (store ! data i) (fst w) (snd w)"
      by (cases v') (simp_all add: cropped_entry_def)
    with Cons.IH ImageEntry e e' show ?thesis by simp
  qed
qed

lemma crop_spatial_shape:
  assumes w: "crop_window extent patch_size (index_ini, index_fin)"
      and p: "\<forall>p\<in>set patch_size. 0 \<le> p"
      and e: "spatial_shape (length extent) a = extent"
  shows "map int (spatial_shape (length patch_size) (crop a index_ini index_fin)) = patch_size"
    and "channel_shape (length patch_size) (crop a index_ini index_fin) = channel_shape (length extent) a"
proof -
  have "length (spatial_shape (length extent) a) = min (length extent) (length (shape a))"
    by (simp add: spatial_shape_def min_def)
  with e have le: "length extent \<le> length (shape a)" by simp
  from e have d: "drop (length (shape a) - length extent) (shape a) = extent"
    by (simp add: spatial_shape_def)
  from w have len: "length patch_size = length extent" by (simp add: crop_window_def)
  from crop_shape[OF w p le d]
  have s: "shape (crop a index_ini index_fin)
           = take (length (shape a) - length extent) (shape a) @ map nat patch_size" .
  from p have "map int (map nat patch_size) = patch_size"
    by (induction patch_size) simp_all
  with s show "map int (spatial_shape (length patch_size) (crop a index_ini index_fin)) = patch_size"
    by (simp add: spatial_shape_def)
  from s len le show "channel_shape (length patch_size) (crop a index_ini index_fin)
                      = channel_shape (length extent) a"
    by (simp add: channel_shape_def)
qed

text \<open>
  C6. Assume that the random index generator answers with crop windows for the volume's
  spatial extent and the patch size (\<^verbatim>\<open>index_fin = index_ini + patch_size\<close> within the
  bounds), that every image of the sample has that spatial extent, and that the patch
  size has no negative coordinate. Then for every sample returned by \<^verbatim>\<open>extract_patch\<close>,
  every image entry's cropped array has exactly the patch size as its spatial shape, and
  its shape over the dimensions before them is that of the input entry's array.
\<close>
theorem cropped_images_have_patch_shape:
  assumes run: "extract_patch rand sample patch_size st = Some (Inr cropped, st')"
      and store: "sample_in_store sample st"
      and gen: "\<forall>k. crop_window extent patch_size (proposed rand sample patch_size st k)"
      and size: "\<forall>p\<in>set patch_size. 0 \<le> p"
      and ext: "\<forall>d\<in>set (images_of sample). spatial_shape (length extent) (arrays st ! data d) = extent"
  shows "list_all2
           (\<lambda>d d'. map int (spatial_shape (length patch_size) (arrays st' ! data d')) = patch_size \<and>
                    channel_shape (length patch_size) (arrays st' ! data d')
                      = channel_shape (length extent) (arrays st ! data d))
           (images_of sample) (images_of cropped)"
proof -
  let ?w = "proposed rand sample patch_size st (drawn st' - 1)"
  from accepted_window_crops_entries[OF run store]
  have "list_all2 (cropped_entry (arrays st) (arrays st') ?w) sample cropped" .
  from cropped_images[OF this]
  have c: "list_all2 (\<lambda>d d'. type d' = type d \<and>
             arrays st' ! data d' = crop (arrays st ! data d) (fst ?w) (snd ?w))
           (images_of sample) (images_of cropped)" .
  from gen have w: "crop_window extent patch_size (fst ?w, snd ?w)" by simp
  show ?thesis
  proof (rule list.rel_mono_strong[OF c])
    fix d d'
    assume "d \<in> set (images_of sample)"
       and "type d' = type d \<and> arrays st' ! data d' = crop (arrays st ! data d) (fst ?w) (snd ?w)"
    with ext crop_spatial_shape[OF w size, of "arrays st ! data d"]
    show "map int (spatial_shape (length patch_size) (arrays st' ! data d')) = patch_size \<and>
          channel_shape (length patch_size) (arrays st' ! data d')
            = channel_shape (length extent) (arrays st ! data d)"
      by simp
  qed
qed

theorem cropped_images_have_patch_shape_witness:
  "list_all2
     (\<lambda>d d'. map int (spatial_shape (length [1, 1, 2 :: int]) (arrays state1 ! data d')) = [1, 1, 2] \<and>
              channel_shape (length [1, 1, 2 :: int]) (arrays state1 ! data d')
                = channel_shape (length [2, 2, 3 :: nat]) (arrays state0 ! data d))
     (images_of scan) (images_of scan_patch)"
proof -
  have gen: "\<forall>k. crop_window [2, 2, 3] [1, 1, 2] (proposed windows0 scan [1, 1, 2] state0 k)"
    by (simp add: crop_window_def proposed_def windows0_def nth_Cons' less_Suc_eq numeral_3_eq_3)
  have size: "\<forall>p\<in>set [1, 1, 2 :: int]. 0 \<le> p" by simp
  have ext: "\<forall>d\<in>set (images_of scan).
      spatial_shape (length [2, 2, 3 :: nat]) (arrays state0 ! data d) = [2, 2, 3]"
    by (simp add: scan_def state0_def spatial_shape_def t1_volume_def seg_volume_def)
  from cropped_images_have_patch_shape[OF scan_run scan_in_store gen size ext]
  show ?thesis .
qed

subsection \<open>The store and the acceptance test\<close>

lemma extract_patch_error:
  assumes "extract_patch rand sample patch_size st = Some (Inl e, st')"
  shows "first_label (values_of sample) = Inl e \<and> st' = st\<lparr>located := Suc (located st)\<rparr>"
proof (cases "first_label (values_of sample)")
  case (Inl e')
  with assms show ?thesis by (simp add: extract_patch_def get_first_label_image_dict_def)
next
  case (Inr d)
  let ?st1 = "st\<lparr>located := Suc (located st)\<rparr>"
  show ?thesis
  proof (cases "retry_loop rand sample patch_size (data d) ?st1")
    case None
    with assms Inr show ?thesis by (simp add: extract_patch_def get_first_label_image_dict_def)
  next
    case (Some y)
    with assms Inr show ?thesis
      by (simp add: extract_patch_def get_first_label_image_dict_def split_beta)
  qed
qed

lemma extract_patch_store:
  assumes "extract_patch rand sample patch_size st = Some (r, st')"
  shows "\<exists>new. arrays st' = arrays st @ new"
proof (cases r)
  case (Inl e)
  with assms extract_patch_error[of rand sample patch_size st e st']
  have "arrays st' = arrays st" by simp
  then show ?thesis by simp
next
  case (Inr cropped)
  with assms have run: "extract_patch rand sample patch_size st = Some (Inr cropped, st')" by simp
  from run obtain d w st2 where
    d: "first_label (values_of sample) = Inr d" and
    r: "retry_loop rand sample patch_size (data d) (st\<lparr>located := Suc (located st)\<rparr>) = Some (w, st2)" and
    c: "copy_and_crop sample (fst w) (snd w) st2 = (cropped, st')"
    by (rule extract_patch_returns_sample)
  from retry_loop_accepts[OF r] have "arrays st2 = arrays st"
    unfolding accepted_by_def by auto
  with copy_and_crop_frame[OF c] show ?thesis by auto
qed

lemma extract_patch_fresh:
  assumes "extract_patch rand sample patch_size st = Some (Inr cropped, st')"
  shows "list_all (\<lambda>d'. length (arrays st) \<le> data d' \<and> data d' < length (arrays st'))
           (images_of cropped)"
proof -
  from assms obtain d w st2 where
    d: "first_label (values_of sample) = Inr d" and
    r: "retry_loop rand sample patch_size (data d) (st\<lparr>located := Suc (located st)\<rparr>) = Some (w, st2)" and
    c: "copy_and_crop sample (fst w) (snd w) st2 = (cropped, st')"
    by (rule extract_patch_returns_sample)
  from retry_loop_accepts[OF r] have "arrays st2 = arrays st"
    unfolding accepted_by_def by auto
  with copy_and_crop_fresh[OF c] show ?thesis by simp
qed

text \<open>
  C7. A call of \<^verbatim>\<open>extract_patch\<close> that returns, with a sample or with the error, leaves
  every array that existed before the call as it was, so every array of the input
  sample is unchanged by value; and the arrays of a returned sample are new objects, at
  addresses that were free before the call, none of them an array of the caller.
\<close>
theorem input_arrays_unchanged:
  assumes "extract_patch rand sample patch_size st = Some (r, st')"
      and "sample_in_store sample st"
  shows "take (length (arrays st)) (arrays st') = arrays st \<and>
         list_all (\<lambda>d. arrays st' ! data d = arrays st ! data d) (images_of sample) \<and>
         (case r of
            Inl e \<Rightarrow> arrays st' = arrays st
          | Inr cropped \<Rightarrow>
              list_all (\<lambda>d'. length (arrays st) \<le> data d' \<and> data d' < length (arrays st'))
                (images_of cropped))"
proof -
  from extract_patch_store[OF assms(1)] obtain new where n: "arrays st' = arrays st @ new" ..
  then have a: "take (length (arrays st)) (arrays st') = arrays st" by simp
  from assms(2) n have b: "list_all (\<lambda>d. arrays st' ! data d = arrays st ! data d) (images_of sample)"
    by (simp add: sample_in_store_def list_all_iff nth_append)
  have c: "(case r of
            Inl e \<Rightarrow> arrays st' = arrays st
          | Inr cropped \<Rightarrow>
              list_all (\<lambda>d'. length (arrays st) \<le> data d' \<and> data d' < length (arrays st'))
                (images_of cropped))"
  proof (cases r)
    case (Inl e)
    with assms(1) extract_patch_error[of rand sample patch_size st e st']
    show ?thesis by simp
  next
    case (Inr cropped)
    with extract_patch_fresh[of rand sample patch_size st cropped st'] assms(1)
    show ?thesis by simp
  qed
  from a b c show ?thesis by blast
qed

theorem input_arrays_unchanged_witness:
  "take (length (arrays state0)) (arrays state1) = arrays state0 \<and>
   list_all (\<lambda>d. arrays state1 ! data d = arrays state0 ! data d) (images_of scan) \<and>
   list_all (\<lambda>d'. length (arrays state0) \<le> data d' \<and> data d' < length (arrays state1))
     (images_of scan_patch)"
  using input_arrays_unchanged[OF scan_run scan_in_store] by simp

lemma crop_big: "crop big_volume [0, 0, 0] [1, 1, 2] = big_volume"
  by (simp add: crop_def crop_ranges_def big_volume_def slice_range_def slice_bound_def upt_rec)

text \<open>
  C8 does not hold without a bound on the sum: on a label volume without negative value
  whose crop sums beyond the largest signed 64-bit integer, the crop holds voxels
  greater than zero and the acceptance test rejects it, since the sum has wrapped around.
\<close>

theorem acceptance_test_misses_foreground:
  "wf_array big_volume \<and> list_all ((\<le>) 0) (flat big_volume) \<and>
   list_ex ((<) 0) (flat (crop big_volume [0, 0, 0] [1, 1, 2])) \<and>
   \<not> has_label big_volume ([0, 0, 0], [1, 1, 2])"
  by (simp add: has_label_def crop_big sum_nd_def wrap_int64_def)
     (simp add: big_volume_def wf_array_def)

text \<open>
  C8. For every proposed window, the acceptance test of \<^verbatim>\<open>extract_patch\<close> (the sum of the
  label crop is positive) holds if and only if the crop contains a voxel with a value
  greater than zero, provided that no value of the label array is negative and that
  the values of the crop add up to less than \<open>2 ^ 63\<close>, so that the sum does not wrap around.
\<close>

theorem acceptance_test_detects_foreground:
  assumes "wf_array label_array" and "\<forall>v\<in>set (flat label_array). 0 \<le> v"
      and "sum_list (flat (crop label_array (fst w) (snd w))) < 2 ^ 63"
  shows "has_label label_array w
         = (\<exists>v\<in>set (flat (crop label_array (fst w) (snd w))). 0 < v)"
proof -
  let ?c = "crop label_array (fst w) (snd w)"
  from crop_voxels_subset[OF assms(1), of "fst w" "snd w"] assms(2)
  have nn: "\<forall>v\<in>set (flat ?c). 0 \<le> v" by blast
  then have "0 \<le> sum_list (flat ?c)" by (simp add: sum_list_nonneg)
  with assms(3) have "wrap_int64 (sum_list (flat ?c)) = sum_list (flat ?c)"
    by (intro wrap_int64_id) simp_all
  with sum_list_pos_iff[OF nn] show ?thesis
    by (simp add: has_label_def sum_nd_def)
qed

theorem acceptance_test_detects_foreground_witness:
  "has_label seg_volume ([1, 1, 1], [2, 2, 3]) \<and>
   list_ex (\<lambda>v. 0 < v) (flat (crop seg_volume [1, 1, 1] [2, 2, 3])) \<and>
   \<not> has_label seg_volume ([0, 0, 0], [1, 1, 2]) \<and>
   \<not> list_ex (\<lambda>v. 0 < v) (flat (crop seg_volume [0, 0, 0] [1, 1, 2]))"
proof -
  have w: "wf_array seg_volume" by (simp add: wf_array_def seg_volume_def)
  have n: "\<forall>v\<in>set (flat seg_volume). 0 \<le> v" by (simp add: seg_volume_def)
  have b1: "sum_list (flat (crop seg_volume (fst ([1, 1, 1], [2, 2, 3])) (snd ([1, 1, 1], [2, 2, 3]))))
            < 2 ^ 63"
    by (simp add: crop_seg_hit)
  have b2: "sum_list (flat (crop seg_volume (fst ([0, 0, 0], [1, 1, 2])) (snd ([0, 0, 0], [1, 1, 2]))))
            < 2 ^ 63"
    by (simp add: crop_seg_miss)
  from acceptance_test_detects_foreground[OF w n b1]
       acceptance_test_detects_foreground[OF w n b2]
       seg_hit seg_miss
  show ?thesis by (simp add: list_ex_iff)
qed

subsection \<open>Determinism\<close>

lemma cropped_values:
  assumes "list_all2 (cropped_entry store store' w) sample cropped"
  shows "map (\<lambda>e. (fst e, entry_value store' (snd e))) cropped
         = map (crop_value w) (map (\<lambda>e. (fst e, entry_value store (snd e))) sample)"
  using assms
proof (induction sample cropped rule: list_all2_induct)
  case Nil
  then show ?case by simp
next
  case (Cons e sample e' cropped)
  obtain k v where e: "e = (k, v)" by (cases e)
  obtain k' v' where e': "e' = (k', v')" by (cases e')
  have "(fst e', entry_value store' (snd e')) = crop_value w (fst e, entry_value store (snd e))"
  proof (cases v)
    case (AuxEntry p)
    with Cons.hyps(1) e e' have "v' = AuxEntry p" "k' = k"
      by (cases v'; simp add: cropped_entry_def)+
    with AuxEntry e e' show ?thesis by (simp add: entry_value_def crop_value_def)
  next
    case (ImageEntry i)
    with Cons.hyps(1) e e' obtain i' where "v' = ImageEntry i'" "type i' = type i"
      "store' ! data i' = crop (store ! data i) (fst w) (snd w)" "k' = k"
      by (cases v') (simp_all add: cropped_entry_def)
    with ImageEntry e e' show ?thesis by (simp add: entry_value_def crop_value_def)
  qed
  with Cons.IH show ?case by simp
qed

lemma copy_and_crop_values:
  assumes "sample_in_store sample st"
      and "copy_and_crop sample index_ini index_fin st = (cropped, st')"
  shows "sample_values st' cropped = map (crop_value (index_ini, index_fin)) (sample_values st sample)"
  using cropped_values[OF copy_and_crop_entries[OF assms]]
  by (simp add: sample_values_def)

lemma sample_values_label:
  assumes "sample_values st2 sample = sample_values st1 sample"
      and "first_label (values_of sample) = Inr d"
  shows "arrays st2 ! data d = arrays st1 ! data d"
proof -
  from first_label_Inr[OF assms(2)] have "ImageEntry d \<in> set (values_of sample)" by auto
  then obtain e where e: "e \<in> set sample" "snd e = ImageEntry d"
    by (auto simp: values_of_def)
  from assms(1) e(1) have "entry_value (arrays st2) (snd e) = entry_value (arrays st1) (snd e)"
    by (simp add: sample_values_def)
  with e(2) show ?thesis by (simp add: entry_value_def)
qed

text \<open>
  C10. \<^verbatim>\<open>extract_patch\<close> is determined by its sample, its patch size and the windows it is
  given. Take a run that returns, and a second run on the same sample and patch size,
  from any state that holds the same arrays for the sample, to which the generator
  answers with the same windows, request by request, for as many requests as the first
  run made. Then the second run returns too, after the same number of requests; both
  fail with the same error after no request, or both return a sample, and the two
  samples are equal by value; the window that both accept is the last one requested,
  it passes the acceptance test, and every window requested before it fails the test, so
  it is the first proposed window whose label crop has a positive sum. In each run the
  locator, which counts its own runs, has run exactly once, whatever the number of
  rejections.
\<close>

theorem extract_patch_deterministic:
  assumes run: "extract_patch rand1 sample patch_size st1 = Some (r1, st1')"
      and store: "sample_in_store sample st1" "sample_in_store sample st2"
      and same_sample: "sample_values st2 sample = sample_values st1 sample"
      and same_windows:
        "\<forall>i. i < drawn st1' - drawn st1 \<longrightarrow>
           proposed rand2 sample patch_size st2 (drawn st2 + i)
           = proposed rand1 sample patch_size st1 (drawn st1 + i)"
  shows "\<exists>r2 st2'. extract_patch rand2 sample patch_size st2 = Some (r2, st2') \<and>
           drawn st2' - drawn st2 = drawn st1' - drawn st1 \<and>
           located st1' = Suc (located st1) \<and> located st2' = Suc (located st2) \<and>
           (case r1 of
              Inl e \<Rightarrow> r2 = Inl e \<and> drawn st1' = drawn st1
            | Inr cropped1 \<Rightarrow>
                (\<exists>cropped2 d. r2 = Inr cropped2 \<and>
                   sample_values st2' cropped2 = sample_values st1' cropped1 \<and>
                   fst (get_first_label_image_dict sample st1) = Inr d \<and>
                   drawn st1 < drawn st1' \<and>
                   proposed rand2 sample patch_size st2 (drawn st2' - 1)
                     = proposed rand1 sample patch_size st1 (drawn st1' - 1) \<and>
                   has_label (arrays st1 ! data d)
                     (proposed rand1 sample patch_size st1 (drawn st1' - 1)) \<and>
                   (\<forall>k. drawn st1 \<le> k \<and> k < drawn st1' - 1 \<longrightarrow>
                        \<not> has_label (arrays st1 ! data d)
                            (proposed rand1 sample patch_size st1 k))))"
proof (cases r1)
  case (Inl e)
  with run extract_patch_error[of rand1 sample patch_size st1 e st1']
  have l: "first_label (values_of sample) = Inl e"
    and s: "st1' = st1\<lparr>located := Suc (located st1)\<rparr>" by simp_all
  from l have "extract_patch rand2 sample patch_size st2
               = Some (Inl e, st2\<lparr>located := Suc (located st2)\<rparr>)"
    by (simp add: extract_patch_def get_first_label_image_dict_def)
  with s Inl show ?thesis by simp
next
  case (Inr cropped1)
  let ?ws1 = "proposed rand1 sample patch_size st1"
  let ?ws2 = "proposed rand2 sample patch_size st2"
  let ?s1 = "st1\<lparr>located := Suc (located st1)\<rparr>"
  let ?s2 = "st2\<lparr>located := Suc (located st2)\<rparr>"
  from run Inr have run1: "extract_patch rand1 sample patch_size st1 = Some (Inr cropped1, st1')"
    by simp
  from run1 obtain d w m1 where
    d: "first_label (values_of sample) = Inr d" and
    r: "retry_loop rand1 sample patch_size (data d) ?s1 = Some (w, m1)" and
    c: "copy_and_crop sample (fst w) (snd w) m1 = (cropped1, st1')"
    by (rule extract_patch_returns_sample)
  from copy_and_crop_frame[OF c] have f: "drawn st1' = drawn m1" "located st1' = located m1" by auto
  from retry_loop_accepts[OF r]
  have acc: "has_label (arrays st1 ! data d) w" "drawn st1 < drawn m1" "w = ?ws1 (drawn m1 - 1)"
    "located m1 = Suc (located st1)" "arrays m1 = arrays st1"
    "\<forall>k. drawn st1 \<le> k \<and> k < drawn m1 - 1 \<longrightarrow> \<not> has_label (arrays st1 ! data d) (?ws1 k)"
    unfolding accepted_by_def by auto
  define n where "n = drawn m1 - 1 - drawn st1"
  from acc(2) have n: "drawn st1 + n = drawn m1 - 1" "drawn m1 - drawn st1 = Suc n"
    by (simp_all add: n_def)
  have lab: "arrays st2 ! data d = arrays st1 ! data d"
    by (rule sample_values_label[OF same_sample d])
  have eq: "?ws2 (drawn st2 + i) = ?ws1 (drawn st1 + i)" if "i \<le> n" for i
  proof -
    from that n(2) f(1) have "i < drawn st1' - drawn st1" by simp
    with same_windows show ?thesis by blast
  qed
  have wn: "?ws2 (drawn st2 + n) = w" using eq[of n] acc(3) n(1) by simp
  have a2: "has_label (arrays ?s2 ! data d) (proposed rand2 sample patch_size ?s2 (drawn ?s2 + n))"
    using acc(1) wn lab by simp
  have b2: "\<forall>i<n. \<not> has_label (arrays ?s2 ! data d)
                      (proposed rand2 sample patch_size ?s2 (drawn ?s2 + i))"
  proof (intro allI impI)
    fix i assume i: "i < n"
    with n(1) have "drawn st1 \<le> drawn st1 + i \<and> drawn st1 + i < drawn m1 - 1" by simp
    with acc(6) have "\<not> has_label (arrays st1 ! data d) (?ws1 (drawn st1 + i))" by blast
    with eq[of i] i lab
    show "\<not> has_label (arrays ?s2 ! data d) (proposed rand2 sample patch_size ?s2 (drawn ?s2 + i))"
      by simp
  qed
  define m2 where "m2 = ?s2\<lparr>drawn := Suc (drawn ?s2 + n)\<rparr>"
  from retry_loop_returns[OF a2 b2] wn
  have r2: "retry_loop rand2 sample patch_size (data d) ?s2 = Some (w, m2)"
    by (simp add: m2_def)
  obtain cropped2 st2' where c2: "copy_and_crop sample (fst w) (snd w) m2 = (cropped2, st2')"
    by (cases "copy_and_crop sample (fst w) (snd w) m2")
  from d r2 c2 have run2: "extract_patch rand2 sample patch_size st2 = Some (Inr cropped2, st2')"
    by (simp add: extract_patch_def get_first_label_image_dict_def split_beta)
  from copy_and_crop_frame[OF c2]
  have f2: "drawn st2' = drawn m2" "located st2' = located m2" by auto
  have d2: "drawn st2' = Suc (drawn st2 + n)" "located st2' = Suc (located st2)"
    using f2 by (simp_all add: m2_def)
  have cnt: "drawn st2' - drawn st2 = drawn st1' - drawn st1"
    using d2(1) f(1) n(2) by simp
  have loc1: "located st1' = Suc (located st1)" using f(2) acc(4) by simp
  have in1: "sample_in_store sample m1" using store(1) acc(5) by (simp add: sample_in_store_def)
  have in2: "sample_in_store sample m2" using store(2) by (simp add: sample_in_store_def m2_def)
  have v1: "sample_values m1 sample = sample_values st1 sample"
    using acc(5) by (simp add: sample_values_def)
  have v2: "sample_values m2 sample = sample_values st2 sample"
    by (simp add: sample_values_def m2_def)
  have vals: "sample_values st2' cropped2 = sample_values st1' cropped1"
    using copy_and_crop_values[OF in1 c] copy_and_crop_values[OF in2 c2] v1 v2 same_sample
    by simp
  have last: "?ws2 (drawn st2' - 1) = ?ws1 (drawn st1' - 1)"
    using wn acc(3) d2(1) f(1) by simp
  have h1: "has_label (arrays st1 ! data d) (?ws1 (drawn st1' - 1))"
    using acc(1) acc(3) f(1) by simp
  have rej1: "\<forall>k. drawn st1 \<le> k \<and> k < drawn st1' - 1 \<longrightarrow>
                \<not> has_label (arrays st1 ! data d) (?ws1 k)"
    using acc(6) f(1) by simp
  have lt: "drawn st1 < drawn st1'" using acc(2) f(1) by simp
  from d have loc: "fst (get_first_label_image_dict sample st1) = Inr d"
    by (simp add: locator_result)
  show ?thesis
    unfolding Inr
    apply (rule exI[of _ "Inr cropped2"])
    apply (rule exI[of _ st2'])
    using run2 cnt loc1 d2(2) vals loc lt last h1 rej1
    apply simp
    done
qed

lemma scan_in_store1: "sample_in_store scan state1"
  by (simp add: sample_in_store_def scan_def state1_def)

lemma windows1_values:
  "k < 5 \<Longrightarrow> windows1 k store sample [1, 1, 2] = ([0, 0, 0], [1, 1, 2])"
  "5 \<le> k \<Longrightarrow> windows1 k store sample [1, 1, 2] = ([1, 1, 1], [2, 2, 3])"
  by (simp_all add: windows1_def windows0_def)

lemma scan_loop3:
  "retry_loop windows1 scan [1, 1, 2] 1 (state1\<lparr>located := Suc (located state1)\<rparr>)
   = Some (([1, 1, 1], [2, 2, 3]), state1\<lparr>located := 2, drawn := 6\<rparr>)"
proof -
  let ?st = "state1\<lparr>located := Suc (located state1)\<rparr>"
  have a: "has_label (arrays ?st ! 1) (proposed windows1 scan [1, 1, 2] ?st (drawn ?st + 2))"
    by (simp add: state1_def proposed_def windows1_values seg_hit)
  have b: "\<forall>i<2. \<not> has_label (arrays ?st ! 1) (proposed windows1 scan [1, 1, 2] ?st (drawn ?st + i))"
    by (simp add: state1_def proposed_def windows1_values seg_miss)
  from retry_loop_returns[of ?st 1 windows1 scan "[1, 1, 2]" 2, OF a b]
  show ?thesis by (simp add: state1_def proposed_def windows1_values)
qed

lemma scan_run3: "extract_patch windows1 scan [1, 1, 2] state1 = Some (Inr scan_patch2, state3)"
proof -
  have c: "copy_and_crop scan [1, 1, 1] [2, 2, 3] (state1\<lparr>located := 2, drawn := 6\<rparr>)
           = (scan_patch2, state3)"
    by (simp add: scan_def scan_patch2_def state1_def state3_def new_array_def
          crop_seg_hit crop_t1_hit)
  show ?thesis
    using scan_loop3 c by (simp add: extract_patch_def get_first_label_image_dict_def scan_label)
qed

theorem extract_patch_deterministic_witness:
  "extract_patch windows0 scan [1, 1, 2] state0 = Some (Inr scan_patch, state1) \<and>
   extract_patch windows1 scan [1, 1, 2] state1 = Some (Inr scan_patch2, state3) \<and>
   (\<exists>r2 st2'. extract_patch windows1 scan [1, 1, 2] state1 = Some (r2, st2') \<and>
      drawn st2' - drawn state1 = drawn state1 - drawn state0 \<and>
      located state1 = Suc (located state0) \<and> located st2' = Suc (located state1) \<and>
      (\<exists>cropped2 d. r2 = Inr cropped2 \<and>
         sample_values st2' cropped2 = sample_values state1 scan_patch \<and>
         fst (get_first_label_image_dict scan state0) = Inr d \<and>
         drawn state0 < drawn state1 \<and>
         proposed windows1 scan [1, 1, 2] state1 (drawn st2' - 1)
           = proposed windows0 scan [1, 1, 2] state0 (drawn state1 - 1) \<and>
         has_label (arrays state0 ! data d)
           (proposed windows0 scan [1, 1, 2] state0 (drawn state1 - 1)) \<and>
         (\<forall>k. drawn state0 \<le> k \<and> k < drawn state1 - 1 \<longrightarrow>
              \<not> has_label (arrays state0 ! data d) (proposed windows0 scan [1, 1, 2] state0 k))))"
proof -
  have vals: "sample_values state1 scan = sample_values state0 scan"
    by (simp add: sample_values_def entry_value_def scan_def state0_def state1_def)
  have wins: "\<forall>i. i < drawn state1 - drawn state0 \<longrightarrow>
      proposed windows1 scan [1, 1, 2] state1 (drawn state1 + i)
      = proposed windows0 scan [1, 1, 2] state0 (drawn state0 + i)"
    by (simp add: proposed_def windows1_def windows0_def state0_def state1_def)
  from extract_patch_deterministic[OF scan_run scan_in_store scan_in_store1 vals wins]
       scan_run scan_run3
  show ?thesis by simp
qed

subsection \<open>The patch generator\<close>

lemma next_patch_suspended:
  "next_patch rand (extract_patch_generator sample patch_size) st =
     (case extract_patch rand sample patch_size st of
        None \<Rightarrow> None
      | Some (Inl e, st') \<Rightarrow>
          Some (Raise e, (extract_patch_generator sample patch_size)\<lparr>gen_status := Closed\<rparr>, st')
      | Some (Inr cropped_sample, st') \<Rightarrow>
          Some (Yield cropped_sample, extract_patch_generator sample patch_size, st'))"
  by (simp add: next_patch_def extract_patch_generator_def
        split: option.splits sum.splits prod.splits)

lemma next_patch_yield:
  "next_patch rand (extract_patch_generator sample patch_size) st = Some (Yield c, g, st') \<longleftrightarrow>
   extract_patch rand sample patch_size st = Some (Inr c, st') \<and>
   g = extract_patch_generator sample patch_size"
  unfolding next_patch_suspended
  by (auto split: option.splits sum.splits prod.splits)

lemma next_patch_never_stops:
  "next_patch rand (extract_patch_generator sample patch_size) st \<noteq> Some (StopIteration, g, st')"
  unfolding next_patch_suspended
  by (auto split: option.splits sum.splits prod.splits)

lemma draw_yields:
  "draw n rand (extract_patch_generator sample patch_size) st = Some (map Yield cs, g, st') \<longleftrightarrow>
   successive_calls n rand sample patch_size st = Some (cs, st') \<and>
   g = extract_patch_generator sample patch_size"
proof (induction n arbitrary: st cs)
  case 0
  then show ?case by auto
next
  case (Suc n)
  let ?G = "extract_patch_generator sample patch_size"
  show ?case
  proof
    assume L: "draw (Suc n) rand ?G st = Some (map Yield cs, g, st')"
    then obtain out g1 st1 where n1: "next_patch rand ?G st = Some (out, g1, st1)"
      by (cases "next_patch rand ?G st") auto
    with L obtain outs where d1: "draw n rand g1 st1 = Some (outs, g, st')"
      and o: "out # outs = map Yield cs"
      by (cases "draw n rand g1 st1") auto
    from o obtain c cs' where cs: "cs = c # cs'" "out = Yield c" "outs = map Yield cs'"
      by (cases cs) auto
    from n1 cs have e: "extract_patch rand sample patch_size st = Some (Inr c, st1)"
      and g1: "g1 = ?G" by (simp_all add: next_patch_yield)
    from d1 g1 cs Suc.IH[of st1 cs']
    have "successive_calls n rand sample patch_size st1 = Some (cs', st')" "g = ?G" by simp_all
    with e cs show "successive_calls (Suc n) rand sample patch_size st = Some (cs, st') \<and> g = ?G"
      by simp
  next
    assume R: "successive_calls (Suc n) rand sample patch_size st = Some (cs, st') \<and> g = ?G"
    then obtain c st1 where e: "extract_patch rand sample patch_size st = Some (Inr c, st1)"
      by (auto split: option.splits sum.splits prod.splits)
    with R obtain cs' where s: "successive_calls n rand sample patch_size st1 = Some (cs', st')"
      and cs: "cs = c # cs'"
      by (auto split: option.splits)
    from e have n1: "next_patch rand ?G st = Some (Yield c, ?G, st1)"
      by (simp add: next_patch_yield)
    from s R Suc.IH[of st1 cs'] have "draw n rand ?G st1 = Some (map Yield cs', g, st')" by simp
    with n1 cs show "draw (Suc n) rand ?G st = Some (map Yield cs, g, st')" by simp
  qed
qed

text \<open>
  C9. For a fixed sample and patch size, the generator yields \<open>n\<close> samples in a row, for any
  \<open>n\<close>, exactly when \<open>n\<close> calls of \<^verbatim>\<open>extract_patch\<close> in a row on that sample and patch size
  return, and then the yielded samples are the returned ones and the generator is the
  one that was created: it carries nothing from one element to the next. Whatever has been
  drawn before, the next request yields a sample exactly when a fresh call of
  \<^verbatim>\<open>extract_patch\<close> returns that sample, and it never answers with the end of the sequence.
\<close>
theorem generator_yields_successive_calls:
  "(draw n rand (extract_patch_generator sample patch_size) st = Some (map Yield cs, g, st') \<longleftrightarrow>
      successive_calls n rand sample patch_size st = Some (cs, st') \<and>
      g = extract_patch_generator sample patch_size) \<and>
   (next_patch rand (extract_patch_generator sample patch_size) st' = Some (Yield c, g', st'') \<longleftrightarrow>
      extract_patch rand sample patch_size st' = Some (Inr c, st'') \<and>
      g' = extract_patch_generator sample patch_size) \<and>
   next_patch rand (extract_patch_generator sample patch_size) st' \<noteq> Some (StopIteration, g', st'')"
  using draw_yields[of n rand sample patch_size st cs g st']
        next_patch_yield[of rand sample patch_size st' c g' st'']
        next_patch_never_stops[of rand sample patch_size st' g' st'']
  by blast

lemma scan_loop2:
  "retry_loop windows0 scan [1, 1, 2] 1 (state1\<lparr>located := Suc (located state1)\<rparr>)
   = Some (([1, 1, 1], [2, 2, 3]), state1\<lparr>located := 2, drawn := 4\<rparr>)"
proof -
  let ?st = "state1\<lparr>located := Suc (located state1)\<rparr>"
  have a: "has_label (arrays ?st ! 1) (proposed windows0 scan [1, 1, 2] ?st (drawn ?st + 0))"
    by (simp add: state1_def proposed_def windows0_values seg_hit)
  have b: "\<forall>i<0. \<not> has_label (arrays ?st ! 1) (proposed windows0 scan [1, 1, 2] ?st (drawn ?st + i))"
    by simp
  from retry_loop_returns[of ?st 1 windows0 scan "[1, 1, 2]" 0, OF a b]
  show ?thesis by (simp add: state1_def proposed_def windows0_values)
qed

lemma scan_run2: "extract_patch windows0 scan [1, 1, 2] state1 = Some (Inr scan_patch2, state2)"
proof -
  have c: "copy_and_crop scan [1, 1, 1] [2, 2, 3] (state1\<lparr>located := 2, drawn := 4\<rparr>)
           = (scan_patch2, state2)"
    by (simp add: scan_def scan_patch2_def state1_def state2_def new_array_def
          crop_seg_hit crop_t1_hit)
  show ?thesis
    using scan_loop2 c by (simp add: extract_patch_def get_first_label_image_dict_def scan_label)
qed

theorem generator_yields_successive_calls_witness:
  "draw 2 windows0 (extract_patch_generator scan [1, 1, 2]) state0
   = Some ([Yield scan_patch, Yield scan_patch2], extract_patch_generator scan [1, 1, 2], state2)"
proof -
  have "successive_calls 2 windows0 scan [1, 1, 2] state0 = Some ([scan_patch, scan_patch2], state2)"
    by (simp add: numeral_2_eq_2 scan_run scan_run2)
  with generator_yields_successive_calls[of 2 windows0 scan "[1, 1, 2]" state0
         "[scan_patch, scan_patch2]" "extract_patch_generator scan [1, 1, 2]" state2]
  show ?thesis by simp
qed

text \<open>
  The patch size of the pair matters: with the same source of windows and the empty
  patch size, the call on the scan accepts the first window, not the third.
\<close>

lemma crop_seg_all: "crop seg_volume [0, 0, 0] [] = seg_volume"
  by (simp add: crop_def crop_ranges_def seg_volume_def upt_rec)

lemma seg_all_hit: "has_label seg_volume ([0, 0, 0], [])"
proof -
  have "sum_list (flat seg_volume) = 1" by (simp add: seg_volume_def)
  then show ?thesis by (simp add: has_label_def crop_seg_all sum_nd_def wrap_int64_def)
qed

lemma patch_size_matters:
  "extract_patch windows0 scan [] state0 \<noteq> extract_patch windows0 scan [1, 1, 2] state0"
proof
  assume "extract_patch windows0 scan [] state0 = extract_patch windows0 scan [1, 1, 2] state0"
  with scan_run have run: "extract_patch windows0 scan [] state0 = Some (Inr scan_patch, state1)"
    by simp
  from run obtain d w m where
    d: "first_label (values_of scan) = Inr d" and
    r: "retry_loop windows0 scan [] (data d) (state0\<lparr>located := Suc (located state0)\<rparr>) = Some (w, m)" and
    c: "copy_and_crop scan (fst w) (snd w) m = (scan_patch, state1)"
    by (rule extract_patch_returns_sample)
  from d scan_label have dd: "data d = 1" by auto
  let ?st = "state0\<lparr>located := Suc (located state0)\<rparr>"
  have "has_label (arrays ?st ! 1) (proposed windows0 scan [] ?st (drawn ?st))"
    by (simp add: state0_def proposed_def windows0_def seg_all_hit)
  then have "retry_loop windows0 scan [] 1 ?st
             = Some (proposed windows0 scan [] ?st (drawn ?st), ?st\<lparr>drawn := Suc (drawn ?st)\<rparr>)"
    by (subst retry_loop_unfold) (simp only: if_True)
  with r dd have "drawn m = 1" by (auto simp: state0_def)
  with copy_and_crop_frame[OF c] show False by (simp add: state1_def)
qed

end
